theory Spec2Isabelle
  imports Complex_Main "HOL-Library.Multiset" "HOL-Library.AList" "HOL-Library.Word"
    "HOL-Library.Product_Lexorder"
begin
section \<open>The numpy tensor shim (Swig/nptensor.py.in)\<close>

text \<open>
  Python exceptions are values: every function of the shim that can raise returns
  \<open>pyerr + 'a\<close>, with \<open>Inl\<close> the exception.
\<close>

datatype pyerr = AssertionError | AttributeError | IndexError | KeyError | ValueError
  | UnboundLocalError | RuntimeError

subsection \<open>numpy arrays as strided views\<close>

text \<open>
  A numpy array is a buffer seen through a shape and one stride per axis (strides counted
  in elements). \<open>transpose\<close> returns a view: it permutes shape and strides and shares the
  buffer. The element at multi-index \<open>idx\<close> is the buffer cell at \<open>\<Sum> idx\<^sub>k * stride\<^sub>k\<close>.
\<close>

record 'a ndarray =
  shape :: "nat list"
  strides :: "nat list"
  buf :: "'a list"

definition offset_of :: "nat list \<Rightarrow> nat list \<Rightarrow> nat" where
  "offset_of st idx = sum_list (map2 (*) idx st)"

definition item :: "'a ndarray \<Rightarrow> nat list \<Rightarrow> 'a" where
  "item a idx = buf a ! offset_of (strides a) idx"

text \<open>All multi-indices of a shape, in C (row-major) order.\<close>

fun indices :: "nat list \<Rightarrow> nat list list" where
  "indices [] = [[]]"
| "indices (d # ds) = concat (map (\<lambda>i. map ((#) i) (indices ds)) [0..<d])"

definition ravel :: "'a ndarray \<Rightarrow> 'a list" where
  "ravel a = map (item a) (indices (shape a))"

fun c_strides :: "nat list \<Rightarrow> nat list" where
  "c_strides [] = []"
| "c_strides (d # ds) = prod_list ds # c_strides ds"

text \<open>\<open>a.size\<close>: the number of elements.\<close>

definition elemNum :: "'a ndarray \<Rightarrow> nat" where
  "elemNum a = prod_list (shape a)"

text \<open>
  \<open>ndarray.transpose(axes)\<close>: numpy raises ValueError unless \<open>axes\<close> is a permutation of
  \<open>range(ndim)\<close>.
\<close>

definition np_transpose :: "nat list \<Rightarrow> 'a ndarray \<Rightarrow> pyerr + 'a ndarray" where
  "np_transpose axes a =
     (if length axes = length (shape a) \<and> distinct axes \<and> (\<forall>k \<in> set axes. k < length (shape a))
      then Inr \<lparr>shape = map ((!) (shape a)) axes, strides = map ((!) (strides a)) axes,
                buf = buf a\<rparr>
      else Inl ValueError)"

subsection \<open>class NPTensor\<close>

text \<open>
  An NPTensor is an ndarray (field \<open>arr\<close>) with four attributes. \<open>lbmap\<close> is the dict
  from label to axis, kept as an association list read with \<open>map_of\<close>.
\<close>

record 'a NPTensor =
  arr :: "'a ndarray"
  label :: "int list"
  bn :: nat
  ibn :: int
  lbmap :: "(int \<times> nat) list"

text \<open>
  \<open>mapLabelBond\<close>: \<open>for i in xrange(self.bn): self.lbmap[self.label[i]] = i\<close>. Reading
  \<open>self.label[i]\<close> past the end raises IndexError.
\<close>

fun mapLabelBond_loop :: "int list \<Rightarrow> nat list \<Rightarrow> (int \<times> nat) list \<Rightarrow> pyerr + (int \<times> nat) list" where
  "mapLabelBond_loop lab [] m = Inr m"
| "mapLabelBond_loop lab (i # is) m =
     (if i < length lab then mapLabelBond_loop lab is (AList.update (lab ! i) i m)
      else Inl IndexError)"

definition mapLabelBond :: "'a NPTensor \<Rightarrow> pyerr + 'a NPTensor" where
  "mapLabelBond t =
     (case mapLabelBond_loop (label t) [0..<bn t] [] of
        Inl e \<Rightarrow> Inl e
      | Inr m \<Rightarrow> Inr (t\<lparr>lbmap := m\<rparr>))"

definition setLabel :: "'a NPTensor \<Rightarrow> int list \<Rightarrow> pyerr + 'a NPTensor" where
  "setLabel t lab =
     (if length lab = length (shape (arr t)) then mapLabelBond (t\<lparr>label := lab\<rparr>)
      else Inl AssertionError)"

text \<open>
  \<open>[self.lbmap[label[i]] for i in xrange(self.bn)]\<close>: IndexError when \<open>label\<close> is too
  short, KeyError when a label is not a key of \<open>lbmap\<close>.
\<close>

fun shape_new :: "(int \<times> nat) list \<Rightarrow> int list \<Rightarrow> nat list \<Rightarrow> pyerr + nat list" where
  "shape_new m lab [] = Inr []"
| "shape_new m lab (i # is) =
     (if length lab \<le> i then Inl IndexError
      else case map_of m (lab ! i) of
             None \<Rightarrow> Inl KeyError
           | Some ax \<Rightarrow> (case shape_new m lab is of
                          Inl e \<Rightarrow> Inl e
                        | Inr axs \<Rightarrow> Inr (ax # axs)))"

text \<open>
  \<open>permute(label, ibn)\<close>. The transposed view \<open>npt\<close> is a fresh object of the class: it
  has no attributes until \<open>bn\<close>, \<open>ibn\<close> are assigned and \<open>setLabel\<close> assigns \<open>label\<close>
  and \<open>lbmap\<close>; the two placeholders below are overwritten by \<open>setLabel\<close>.
\<close>

definition permute :: "'a NPTensor \<Rightarrow> int list \<Rightarrow> int \<Rightarrow> pyerr + 'a NPTensor" where
  "permute self lab ibn' =
     (if \<not> (length lab = length (label self) \<and> set lab = set (label self))
      then Inl AssertionError
      else case shape_new (lbmap self) lab [0..<bn self] of
             Inl e \<Rightarrow> Inl e
           | Inr axes \<Rightarrow>
               (case np_transpose axes (arr self) of
                  Inl e \<Rightarrow> Inl e
                | Inr v \<Rightarrow>
                    setLabel \<lparr>arr = v, label = [], bn = bn self,
                              ibn = (if ibn' \<ge> 0 then ibn' else ibn self), lbmap = []\<rparr> lab))"

text \<open>
  The class invariant that \<open>__new__\<close> establishes and \<open>setLabel\<close> and \<open>permute\<close> keep: one
  stride and one label per axis, \<open>bn\<close> the number of axes, and \<open>lbmap\<close> as
  \<open>mapLabelBond\<close> builds it from the labels.
\<close>

definition wf_NPTensor :: "'a NPTensor \<Rightarrow> bool" where
  "wf_NPTensor t \<longleftrightarrow>
     length (strides (arr t)) = length (shape (arr t)) \<and>
     bn t = length (shape (arr t)) \<and>
     length (label t) = bn t \<and>
     mapLabelBond_loop (label t) [0..<bn t] [] = Inr (lbmap t)"

text \<open>The axis that \<open>lbmap\<close> gives a label (\<open>self.lbmap[x]\<close> for a key that is present).\<close>

definition pos_of :: "'a NPTensor \<Rightarrow> int \<Rightarrow> nat" where
  "pos_of t x = the (map_of (lbmap t) x)"

text \<open>A 2 x 3 array with labels 7 and 3, one incoming bond.\<close>

definition ex_A :: "int NPTensor" where
  "ex_A = \<lparr>arr = \<lparr>shape = [2, 3], strides = [3, 1], buf = [1, 2, 3, 4, 5, 6]\<rparr>,
           label = [7, 3], bn = 2, ibn = 1, lbmap = [(7, 0), (3, 1)]\<rparr>"

subsection \<open>The constructor\<close>

text \<open>
  The classes \<open>Qnum\<close>, \<open>Bond\<close> and \<open>UniTensor\<close> live in the C++ library; the shim sees a
  UniTensor through its accessors only. The record holds what each accessor returns:
  \<open>blockQnum()\<close>, \<open>bond()\<close> (direction and \<open>dim()\<close> of each bond), \<open>label()\<close>,
  \<open>bondNum()\<close>, \<open>inBondNum()\<close>, \<open>typeID()\<close>, the elements that \<open>exportElemR\<close> or
  \<open>exportElemC\<close> copy out, and the name. Of a \<open>Qnum\<close> the shim uses equality with
  \<open>Qnum(0)\<close> only.
\<close>

datatype Qnum = Qnum int

datatype bondType = BD_IN | BD_OUT

record 'a UniTensor =
  ut_blockQnum :: "Qnum list"
  ut_bond :: "(bondType \<times> nat) list"
  ut_label :: "int list"
  ut_bondNum :: nat
  ut_inBondNum :: int
  ut_typeID :: int
  ut_elem :: "'a list"
  ut_name :: string

text \<open>What \<open>NPTensor(...)\<close> can be called on: a UniTensor, an NPTensor, or a plain array.\<close>

datatype 'a pyobj = UT "'a UniTensor" | NPT "'a NPTensor" | NDA "'a ndarray"

text \<open>
  \<open>exportElem\<close>: \<open>npa\<close> is bound only for type ids 1 and 2; \<open>reshape\<close> raises ValueError
  when the number of elements is not the product of the shape. The result is a fresh
  C-contiguous array.
\<close>

definition exportElem :: "'a UniTensor \<Rightarrow> pyerr + 'a list" where
  "exportElem uobj =
     (if ut_typeID uobj = 1 then Inr (ut_elem uobj)
      else if ut_typeID uobj = 2 then Inr (ut_elem uobj)
      else Inl UnboundLocalError)"

definition np_reshape :: "'a list \<Rightarrow> nat list \<Rightarrow> pyerr + 'a ndarray" where
  "np_reshape xs sh =
     (if length xs = prod_list sh then Inr \<lparr>shape = sh, strides = c_strides sh, buf = xs\<rparr>
      else Inl ValueError)"

text \<open>
  \<open>__new__\<close>. On a UniTensor the assertion comes first, and an AssertionError is not
  caught by \<open>except AttributeError\<close>. An NPTensor or a plain array has no
  \<open>blockQnum\<close>: the AttributeError sends it to the handler, where a plain array has no
  \<open>bn\<close> either and gets the default attributes.
\<close>

fun NPTensor_new :: "'a pyobj \<Rightarrow> pyerr + 'a NPTensor" where
  "NPTensor_new (UT tensor) =
     (let qns = ut_blockQnum tensor in
      if \<not> (length qns = 1 \<and> qns ! 0 = Qnum 0) then Inl AssertionError
      else case exportElem tensor of
             Inl e \<Rightarrow> Inl e
           | Inr npa \<Rightarrow>
               (case np_reshape npa (map snd (ut_bond tensor)) of
                  Inl e \<Rightarrow> Inl e
                | Inr nda \<Rightarrow>
                    mapLabelBond \<lparr>arr = nda, label = ut_label tensor, bn = ut_bondNum tensor,
                                  ibn = ut_inBondNum tensor, lbmap = []\<rparr>))"
| "NPTensor_new (NPT tensor) =
     mapLabelBond \<lparr>arr = arr tensor, label = label tensor, bn = bn tensor, ibn = ibn tensor,
                   lbmap = []\<rparr>"
| "NPTensor_new (NDA tensor) =
     mapLabelBond \<lparr>arr = tensor, label = map int [0..<length (shape tensor)],
                   bn = length (shape tensor), ibn = int (length (shape tensor)), lbmap = []\<rparr>"

subsection \<open>contractNPT\<close>

text \<open>
  \<open>numpy.dot\<close> of an \<open>n1 x n2\<close> and an \<open>n2 x m\<close> matrix, both row-major.
\<close>

definition np_dot :: "nat \<Rightarrow> nat \<Rightarrow> nat \<Rightarrow> 'a::semiring_0 list \<Rightarrow> 'a list \<Rightarrow> 'a list" where
  "np_dot n1 n2 m x y =
     concat (map (\<lambda>i. map (\<lambda>j. \<Sum>k \<leftarrow> [0..<n2]. x ! (i * n2 + k) * y ! (k * m + j)) [0..<m]) [0..<n1])"

text \<open>
  \<open>numpy.tensordot(a, b, axes=(axes_a, axes_b))\<close>, as numpy computes it: the summed axes
  must agree in length (ValueError otherwise), \<open>a\<close> is transposed to bring its summed axes
  last and \<open>b\<close> to bring them first, both are reshaped to matrices, multiplied, and the
  product is reshaped to the free axes of \<open>a\<close> followed by those of \<open>b\<close>. \<open>axes=0\<close> is
  the case of two empty axis lists. An axis that is out of range raises IndexError.
\<close>

definition np_tensordot :: "'a::semiring_0 ndarray \<Rightarrow> 'a ndarray \<Rightarrow> nat list \<Rightarrow> nat list \<Rightarrow> pyerr + 'a ndarray" where
  "np_tensordot a b axes_a axes_b =
     (if (\<exists>k \<in> set axes_a. length (shape a) \<le> k) \<or> (\<exists>k \<in> set axes_b. length (shape b) \<le> k)
      then Inl IndexError
      else if length axes_a \<noteq> length axes_b \<or>
              map ((!) (shape a)) axes_a \<noteq> map ((!) (shape b)) axes_b
      then Inl ValueError
      else
        let notin_a = filter (\<lambda>k. k \<notin> set axes_a) [0..<length (shape a)];
            notin_b = filter (\<lambda>k. k \<notin> set axes_b) [0..<length (shape b)];
            olda = map ((!) (shape a)) notin_a;
            oldb = map ((!) (shape b)) notin_b;
            n2 = prod_list (map ((!) (shape a)) axes_a)
        in case np_transpose (notin_a @ axes_a) a of
             Inl e \<Rightarrow> Inl e
           | Inr ta \<Rightarrow>
               (case np_transpose (axes_b @ notin_b) b of
                  Inl e \<Rightarrow> Inl e
                | Inr tb \<Rightarrow>
                    Inr \<lparr>shape = olda @ oldb, strides = c_strides (olda @ oldb),
                         buf = np_dot (prod_list olda) n2 (prod_list oldb) (ravel ta) (ravel tb)\<rparr>))"

text \<open>Python list indexing with an int: a negative index counts from the end.\<close>

definition py_get :: "'b list \<Rightarrow> int \<Rightarrow> pyerr + 'b" where
  "py_get xs i =
     (if 0 \<le> i \<and> i < int (length xs) then Inr (xs ! nat i)
      else if - int (length xs) \<le> i \<and> i < 0 then Inr (xs ! nat (int (length xs) + i))
      else Inl IndexError)"

text \<open>A list comprehension whose body can raise: the first exception ends it.\<close>

fun map_err :: "('b \<Rightarrow> pyerr + 'c) \<Rightarrow> 'b list \<Rightarrow> pyerr + 'c list" where
  "map_err f [] = Inr []"
| "map_err f (x # xs) =
     (case f x of
        Inl e \<Rightarrow> Inl e
      | Inr y \<Rightarrow> (case map_err f xs of Inl e \<Rightarrow> Inl e | Inr ys \<Rightarrow> Inr (y # ys)))"

text \<open>\<open>d[k]\<close> on a dict.\<close>

definition dict_get :: "(int \<times> nat) list \<Rightarrow> int \<Rightarrow> pyerr + nat" where
  "dict_get m k = (case map_of m k of None \<Rightarrow> Inl KeyError | Some v \<Rightarrow> Inr v)"

text \<open>
  \<open>list(set(lab1).intersection(lab2))\<close>. Python leaves the order of a set's elements
  open; the model lists the common labels in the order of \<open>lab1\<close>. Nothing proved below
  depends on that order.
\<close>

definition lab_common_of :: "int list \<Rightarrow> int list \<Rightarrow> int list" where
  "lab_common_of lab1 lab2 = remdups (filter (\<lambda>x. x \<in> set lab2) lab1)"

text \<open>\<open>xrange(a, b)\<close> on ints.\<close>

definition xrange :: "int \<Rightarrow> int \<Rightarrow> int list" where
  "xrange a b = [a..b - 1]"

definition lab_ot_of :: "'a NPTensor \<Rightarrow> 'a NPTensor \<Rightarrow> pyerr + int list" where
  "lab_ot_of t1 t2 =
     map_err id
       (map (py_get (label t1)) (xrange 0 (ibn t1)) @
        map (py_get (label t2)) (xrange 0 (ibn t2)) @
        map (py_get (label t1)) (xrange (ibn t1) (int (bn t1))) @
        map (py_get (label t2)) (xrange (ibn t2) (int (bn t2))))"

definition contractNPT :: "'a::semiring_0 NPTensor \<Rightarrow> 'a NPTensor \<Rightarrow> pyerr + 'a NPTensor" where
  "contractNPT t1 t2 =
     (let lab1 = label t1; lab2 = label t2;
          lab_common = lab_common_of lab1 lab2;
          lab_all = lab1 @ lab2;
          lab_final = filter (\<lambda>x. x \<notin> set lab_common) lab_all;
          nlc = length lab_common
      in if nlc > 0 then
           case map_err (dict_get (lbmap t1)) lab_common of
             Inl e \<Rightarrow> Inl e
           | Inr idx1 \<Rightarrow>
               (case map_err (dict_get (lbmap t2)) lab_common of
                  Inl e \<Rightarrow> Inl e
                | Inr idx2 \<Rightarrow>
                    (case np_tensordot (arr t1) (arr t2) idx1 idx2 of
                       Inl e \<Rightarrow> Inl e
                     | Inr nd \<Rightarrow>
                         (case NPTensor_new (NDA nd) of
                            Inl e \<Rightarrow> Inl e
                          | Inr npt \<Rightarrow>
                              (case setLabel npt lab_final of
                                 Inl e \<Rightarrow> Inl e
                               | Inr npt' \<Rightarrow> Inr (npt'\<lparr>ibn := int (length lab1) - int nlc\<rparr>)))))
         else
           case np_tensordot (arr t1) (arr t2) [] [] of
             Inl e \<Rightarrow> Inl e
           | Inr nd \<Rightarrow>
               (case NPTensor_new (NDA nd) of
                  Inl e \<Rightarrow> Inl e
                | Inr npt \<Rightarrow>
                    (case setLabel npt lab_final of
                       Inl e \<Rightarrow> Inl e
                     | Inr npt' \<Rightarrow>
                         (case lab_ot_of t1 t2 of
                            Inl e \<Rightarrow> Inl e
                          | Inr lab_ot \<Rightarrow> permute npt' lab_ot (ibn t1 + ibn t2)))))"

subsection \<open>The norm\<close>

text \<open>
  Modelled from the spec: \<open>UniTensor::norm\<close> is declared in UniTensor.h and its body is
  not in the repository's sources here. The spec names it the Frobenius (\<open>L\<^sup>2\<close>) norm of
  the elements: the square root of the sum of their squares.
\<close>

definition frobenius_norm :: "real ndarray \<Rightarrow> real" where
  "frobenius_norm a = sqrt (\<Sum>x \<leftarrow> ravel a. x\<^sup>2)"


subsection \<open>Well-formed tensors\<close>

text \<open>
  The tensors the claims speak of: the class invariant holds, the labels are pairwise
  distinct (the data model's labels are unique within a tensor), and the number of
  incoming bonds lies between 0 and the number of bonds.
\<close>

definition valid_NPTensor :: "'a NPTensor \<Rightarrow> bool" where
  "valid_NPTensor t \<longleftrightarrow>
     wf_NPTensor t \<and> distinct (label t) \<and> 0 \<le> ibn t \<and> ibn t \<le> int (bn t)"

subsection \<open>Bond directions\<close>

text \<open>
  The bond list \<open>bds\<close> that \<open>toUniTensor\<close> builds: axis \<open>i\<close> is an incoming bond when
  \<open>i < ibn\<close> and an outgoing one otherwise, of dimension \<open>shape[i]\<close>. An NPTensor has
  no other notion of direction.
\<close>

definition toUniTensor_bds :: "'a NPTensor \<Rightarrow> pyerr + (bondType \<times> nat) list" where
  "toUniTensor_bds self =
     map_err (\<lambda>i. if i < length (shape (arr self))
                   then Inr (if int i < ibn self then BD_IN else BD_OUT, shape (arr self) ! i)
                   else Inl IndexError)
       [0..<bn self]"

subsection \<open>Example tensors\<close>

text \<open>
  A 2 x 2 tensor without symmetry (one block, of charge 0), and a tensor with two charge
  blocks.
\<close>

definition ex_U :: "int UniTensor" where
  "ex_U = \<lparr>ut_blockQnum = [Qnum 0], ut_bond = [(BD_IN, 2), (BD_OUT, 2)], ut_label = [0, 1],
           ut_bondNum = 2, ut_inBondNum = 1, ut_typeID = 1, ut_elem = [1, 2, 3, 4],
           ut_name = ''''\<rparr>"


text \<open>The 2 x 3 example with real elements.\<close>

definition ex_R :: "real NPTensor" where
  "ex_R = \<lparr>arr = \<lparr>shape = [2, 3], strides = [3, 1], buf = [1, 2, 3, 4, 5, 6]\<rparr>,
           label = [7, 3], bn = 2, ibn = 1, lbmap = [(7, 0), (3, 1)]\<rparr>"

text \<open>A vector with one incoming bond, labelled 5.\<close>

definition ex_C :: "int NPTensor" where
  "ex_C = \<lparr>arr = \<lparr>shape = [2], strides = [1], buf = [10, 100]\<rparr>,
           label = [5], bn = 1, ibn = 1, lbmap = [(5, 0)]\<rparr>"

text \<open>Three vectors with the same label 0: two of dimension 2, one of dimension 3.\<close>

definition ex_V1 :: "int NPTensor" where
  "ex_V1 = \<lparr>arr = \<lparr>shape = [2], strides = [1], buf = [1, 2]\<rparr>,
            label = [0], bn = 1, ibn = 1, lbmap = [(0, 0)]\<rparr>"

definition ex_V2 :: "int NPTensor" where
  "ex_V2 = \<lparr>arr = \<lparr>shape = [2], strides = [1], buf = [3, 4]\<rparr>,
            label = [0], bn = 1, ibn = 1, lbmap = [(0, 0)]\<rparr>"

definition ex_V3 :: "int NPTensor" where
  "ex_V3 = \<lparr>arr = \<lparr>shape = [3], strides = [1], buf = [3, 4, 5]\<rparr>,
            label = [0], bn = 1, ibn = 0, lbmap = [(0, 0)]\<rparr>"

subsection \<open>launchNPT\<close>

text \<open>
  The contraction tree as the shim walks it: a node with a tensor is a leaf
  (\<open>isLeaf\<close>: \<open>not self.T == None\<close>), any other node has a left and a right child. A leaf
  has no children, so \<open>nd.left.isLeaf()\<close> on a leaf raises AttributeError.
\<close>

datatype 'a Node = LeafNode "'a UniTensor" | InnerNode "'a Node" "'a Node"

text \<open>The attribute \<open>T\<close> of a node: the tensor of a leaf, \<open>None\<close> otherwise.\<close>

fun node_T :: "'a Node \<Rightarrow> 'a UniTensor option" where
  "node_T (LeafNode t) = Some t"
| "node_T (InnerNode l r) = None"

definition isLeaf :: "'a Node \<Rightarrow> bool" where
  "isLeaf nd \<longleftrightarrow> \<not> node_T nd = None"

text \<open>
  \<open>NPTensor(nd.T)\<close> for a node that passed \<open>isLeaf\<close>. (On \<open>None\<close> the constructor would
  not find \<open>blockQnum\<close>; \<open>mergeNPT\<close> never gets there.)
\<close>

definition NPTensor_of_node :: "'a Node \<Rightarrow> pyerr + 'a NPTensor" where
  "NPTensor_of_node nd =
     (case node_T nd of None \<Rightarrow> Inl AttributeError | Some t \<Rightarrow> NPTensor_new (UT t))"

text \<open>
  \<open>mergeNPT\<close>, with the four cases of the source in its order: the subtrees are merged
  before the leaves are converted.
\<close>

fun mergeNPT :: "'a::semiring_0 Node \<Rightarrow> pyerr + 'a NPTensor" where
  "mergeNPT (LeafNode t) = Inl AttributeError"
| "mergeNPT (InnerNode l r) =
     (if \<not> isLeaf l then
        (case mergeNPT l of
           Inl e \<Rightarrow> Inl e
         | Inr npt_l \<Rightarrow>
             if \<not> isLeaf r then
               (case mergeNPT r of Inl e \<Rightarrow> Inl e | Inr npt_r \<Rightarrow> contractNPT npt_l npt_r)
             else
               (case NPTensor_of_node r of
                  Inl e \<Rightarrow> Inl e
                | Inr t_r \<Rightarrow> contractNPT npt_l t_r))
      else
        if \<not> isLeaf r then
          (case mergeNPT r of
             Inl e \<Rightarrow> Inl e
           | Inr npt_r \<Rightarrow>
               (case NPTensor_of_node l of
                  Inl e \<Rightarrow> Inl e
                | Inr t_l \<Rightarrow> contractNPT t_l npt_r))
        else
          (case NPTensor_of_node l of
             Inl e \<Rightarrow> Inl e
           | Inr t_l \<Rightarrow>
               (case NPTensor_of_node r of
                  Inl e \<Rightarrow> Inl e
                | Inr t_r \<Rightarrow> contractNPT t_l t_r)))"

text \<open>
  What the shim reads of a \<open>Network\<close>: \<open>isLoaded()\<close>, \<open>root\<close>, \<open>getLabelTOUT()\<close> and
  \<open>getInBondNumTOUT()\<close>. \<open>construct()\<close> is a C++ member whose body is not in the sources
  here: it is the parameter \<open>net_construct\<close>, a function on the network that can raise.
\<close>

record 'a Network =
  net_load :: bool
  net_root :: "'a Node option"
  net_labelTOUT :: "int list"
  net_inBondNumTOUT :: int

text \<open>
  \<open>toUniTensor\<close>: the bond list, then the C++ calls that build the tensor
  (\<open>UniTensor(bds)\<close> or \<open>UniTensor("C", bds)\<close>, \<open>setElemR\<close> or \<open>setElemC\<close> on
  \<open>self.ravel()\<close>, \<open>setLabel\<close>). Those calls are the parameter \<open>mk_ut\<close>, applied to the
  complex flag (\<open>self.dtype == 'complex128'\<close>), the bonds, the elements and the labels.
\<close>

definition toUniTensor :: "(bool \<Rightarrow> (bondType \<times> nat) list \<Rightarrow> 'a list \<Rightarrow> int list \<Rightarrow> pyerr + 'u) \<Rightarrow>
    bool \<Rightarrow> 'a NPTensor \<Rightarrow> pyerr + 'u" where
  "toUniTensor mk_ut cplx self =
     (case toUniTensor_bds self of
        Inl e \<Rightarrow> Inl e
      | Inr bds \<Rightarrow> mk_ut cplx bds (ravel (arr self)) (label self))"

datatype ('a, 'u) launched = AsUniTensor 'u string | AsNPTensor "'a NPTensor"

text \<open>
  \<open>launchNPT(to_ut, _name)\<close> returns the network as the call leaves it and the result
  or the exception. A \<open>construct()\<close> that raises is taken to leave the network as it was.
\<close>

definition launchNPT :: "('a::semiring_0 Network \<Rightarrow> pyerr + 'a Network) \<Rightarrow>
    (bool \<Rightarrow> (bondType \<times> nat) list \<Rightarrow> 'a list \<Rightarrow> int list \<Rightarrow> pyerr + 'u) \<Rightarrow> bool \<Rightarrow>
    'a Network \<Rightarrow> bool \<Rightarrow> string \<Rightarrow> 'a Network \<times> (pyerr + ('a, 'u) launched)" where
  "launchNPT net_construct mk_ut cplx self to_ut name =
     (case (if \<not> net_load self then net_construct self else Inr self) of
        Inl e \<Rightarrow> (self, Inl e)
      | Inr self' \<Rightarrow>
          (self',
           case net_root self' of
             None \<Rightarrow> Inl AttributeError
           | Some rt \<Rightarrow>
               (case mergeNPT rt of
                  Inl e \<Rightarrow> Inl e
                | Inr npt \<Rightarrow>
                    (case (if length (net_labelTOUT self') > 0
                           then permute npt (net_labelTOUT self') (net_inBondNumTOUT self')
                           else Inr npt) of
                       Inl e \<Rightarrow> Inl e
                     | Inr npt' \<Rightarrow>
                         if to_ut then
                           (case toUniTensor mk_ut cplx npt' of
                              Inl e \<Rightarrow> Inl e
                            | Inr ut \<Rightarrow> Inr (AsUniTensor ut name))
                         else Inr (AsNPTensor npt')))))"


section \<open>The blocked matrix multiply (myDgemm and its helpers)\<close>

text \<open>
  Host and device memory are modelled alike: a buffer is a list of elements, a pointer is
  a buffer with an offset, and a copy between host and device is a copy between lists. An
  access outside a buffer, a failed assertion and a division by zero end the run with an
  error. The elements are taken from a commutative semiring: rounding of \<open>double\<close> is
  outside the model. C \<open>int\<close>s are natural numbers here; the theorems assume that the
  sizes stay below \<open>2^31\<close>, so that no \<open>int\<close> computed from them wraps.
\<close>

unbundle bit_operations_syntax

datatype cerr = AssertionFailed | OutOfBounds | DivisionByZero

datatype mmtype = MM_DDD | MM_DDH | MM_DHD | MM_DHH | MM_HDD | MM_HDH | MM_HHD | MM_HHH

fun mm_val :: "mmtype \<Rightarrow> nat" where
  "mm_val MM_DDD = 0"
| "mm_val MM_DDH = 1"
| "mm_val MM_DHD = 2"
| "mm_val MM_DHH = 3"
| "mm_val MM_HDD = 4"
| "mm_val MM_HDH = 5"
| "mm_val MM_HHD = 6"
| "mm_val MM_HHH = 7"

text \<open>The test \<open>how & m\<close> of the C code.\<close>

definition how_and :: "mmtype \<Rightarrow> nat \<Rightarrow> bool" where
  "how_and how m \<longleftrightarrow> mm_val how AND m \<noteq> 0"

text \<open>A loop whose body can fail.\<close>

fun fold_err :: "('b \<Rightarrow> 's \<Rightarrow> 'e + 's) \<Rightarrow> 'b list \<Rightarrow> 's \<Rightarrow> 'e + 's" where
  "fold_err f [] s = Inr s"
| "fold_err f (x # xs) s = (case f x s of Inl e \<Rightarrow> Inl e | Inr s' \<Rightarrow> fold_err f xs s')"

text \<open>
  \<open>memcpy(dst + doff, src + soff, n * sizeof(double))\<close>, and \<open>cudaMemcpy\<close> in any
  direction.
\<close>

definition memcpy :: "'a list \<Rightarrow> nat \<Rightarrow> 'a list \<Rightarrow> nat \<Rightarrow> nat \<Rightarrow> cerr + 'a list" where
  "memcpy dst doff src soff n =
     (if doff + n \<le> length dst \<and> soff + n \<le> length src
      then Inr (take doff dst @ take n (drop soff src) @ drop (doff + n) dst)
      else Inl OutOfBounds)"

text \<open>
  \<open>malloc\<close> and \<open>cudaMalloc\<close> return a buffer of the requested size whose contents are
  whatever the memory held: \<open>mem\<close> is that content, and every theorem holds for all
  \<open>mem\<close>.
\<close>

definition alloc :: "(nat \<Rightarrow> 'a) \<Rightarrow> nat \<Rightarrow> 'a list" where
  "alloc mem n = map mem [0..<n]"

definition getRows :: "nat \<Rightarrow> nat \<Rightarrow> nat \<Rightarrow> nat \<Rightarrow> 'a list \<Rightarrow> 'a list \<Rightarrow> mmtype \<Rightarrow> cerr + 'a list" where
  "getRows M N start spn iA fA how =
     (if \<not> start + spn \<le> M then Inl AssertionFailed
      else if how_and how 4 then memcpy fA 0 iA (start * N) (N * spn)
      else Inr fA)"

definition getCols :: "(nat \<Rightarrow> 'a) \<Rightarrow> nat \<Rightarrow> nat \<Rightarrow> nat \<Rightarrow> nat \<Rightarrow> 'a list \<Rightarrow> 'a list \<Rightarrow> mmtype \<Rightarrow> cerr + 'a list" where
  "getCols mem M N start spn iB fB how =
     (if \<not> start + spn \<le> N then Inl AssertionFailed
      else if how_and how 2 then
        (case fold_err (\<lambda>i tmp. memcpy tmp (i * spn) iB (i * N + start) spn) [0..<M]
                (alloc mem (M * spn)) of
           Inl e \<Rightarrow> Inl e
         | Inr tmp \<Rightarrow> memcpy fB 0 tmp 0 (M * spn))
      else fold_err (\<lambda>i fB'. memcpy fB' (i * spn) iB (i * N + start) spn) [0..<M] fB)"

definition putBack :: "(nat \<Rightarrow> 'a) \<Rightarrow> nat \<Rightarrow> nat \<Rightarrow> nat \<Rightarrow> nat \<Rightarrow> nat \<Rightarrow> nat \<Rightarrow> 'a list \<Rightarrow> 'a list \<Rightarrow> mmtype \<Rightarrow> cerr + 'a list" where
  "putBack mem startR startC spanR spanC M N subC C how =
     (if how_and how 1 then
        (case memcpy (alloc mem (spanR * spanC)) 0 subC 0 (spanR * spanC) of
           Inl e \<Rightarrow> Inl e
         | Inr tmp \<Rightarrow>
             fold_err (\<lambda>pos C'. memcpy C' ((pos + startR) * N + startC) tmp (pos * spanC) spanC)
               [0..<spanR] C)
      else
        fold_err (\<lambda>pos C'. memcpy C' ((pos + startR) * N + startC) subC (pos * spanC) spanC)
          [0..<spanR] C)"

text \<open>
  \<open>cublasDgemm('N', 'N', m, n, k, alpha, A, lda, B, ldb, beta, C, ldc)\<close> of the cuBLAS
  library: on column-major matrices, \<open>C := alpha * A * B + beta * C\<close> with \<open>A\<close> of size
  \<open>m x k\<close>, \<open>B\<close> of size \<open>k x n\<close> and \<open>C\<close> of size \<open>m x n\<close>. Each operand is a buffer
  and the offset of its first element. The cells of \<open>C\<close> outside the \<open>m x n\<close> matrix keep
  their contents.
\<close>

definition cublasDgemm :: "nat \<Rightarrow> nat \<Rightarrow> nat \<Rightarrow> 'a::comm_semiring_1 \<Rightarrow> 'a list \<Rightarrow> nat \<Rightarrow> nat \<Rightarrow>
    'a list \<Rightarrow> nat \<Rightarrow> nat \<Rightarrow> 'a \<Rightarrow> 'a list \<Rightarrow> nat \<Rightarrow> nat \<Rightarrow> cerr + 'a list" where
  "cublasDgemm m n k alpha A aoff lda B boff ldb beta C coff ldc =
     (if \<not> (m = 0 \<or> k = 0 \<or> aoff + (k - 1) * lda + m \<le> length A) \<or>
         \<not> (k = 0 \<or> n = 0 \<or> boff + (n - 1) * ldb + k \<le> length B) \<or>
         \<not> (m = 0 \<or> n = 0 \<or> coff + (n - 1) * ldc + m \<le> length C)
      then Inl OutOfBounds
      else Inr (map (\<lambda>x. if coff \<le> x \<and> (x - coff) div ldc < n \<and> (x - coff) mod ldc < m
                          then alpha * (\<Sum>t \<leftarrow> [0..<k]. A ! (aoff + (x - coff) mod ldc + t * lda) *
                                                     B ! (boff + t + (x - coff) div ldc * ldb))
                               + beta * C ! x
                          else C ! x)
                  [0..<length C]))"

text \<open>
  The buffers that \<open>myDgemm\<close> owns besides its arguments: the three scratch buffers
  (allocated or not, by \<open>how\<close> and \<open>q\<close>) and the output \<open>C\<close>.
\<close>

record 'a dgemm_state =
  subA :: "'a list"
  subB :: "'a list"
  subC :: "'a list"
  Cbuf :: "'a list"

text \<open>
  The number of rows of the row block \<open>i\<close> out of \<open>p\<close> (and of columns of a column
  block): \<open>pM + (M % p) * ((i + 1) / p)\<close>.
\<close>

definition block_span :: "nat \<Rightarrow> nat \<Rightarrow> nat \<Rightarrow> nat" where
  "block_span M p i = M div p + (M mod p) * ((i + 1) div p)"

text \<open>The body of the two loops, for the block \<open>(i, j)\<close>.\<close>

definition dgemm_block :: "(nat \<Rightarrow> 'a) \<Rightarrow> nat \<Rightarrow> nat \<Rightarrow> nat \<Rightarrow> nat \<Rightarrow> nat \<Rightarrow> 'a::comm_semiring_1 list \<Rightarrow> 'a list \<Rightarrow>
    mmtype \<Rightarrow> nat \<Rightarrow> nat \<Rightarrow> 'a dgemm_state \<Rightarrow> cerr + 'a dgemm_state" where
  "dgemm_block mem p q M N K A B how i j s =
     (let pM = M div p; qN = N div q;
          rows = block_span M p i;
          cols = block_span N q j
      in case (if how_and how 4 then getRows M K (i * pM) rows A (subA s) how else Inr (subA s)) of
           Inl e \<Rightarrow> Inl e
         | Inr sA \<Rightarrow>
             (case (if how_and how 2 \<or> q > 1 then getCols mem K N (j * qN) cols B (subB s) how
                    else Inr (subB s)) of
                Inl e \<Rightarrow> Inl e
              | Inr sB \<Rightarrow>
                  (let (opA, offA) = (if how_and how 4 then (sA, 0) else (A, i * pM * K));
                       opB = (if how_and how 2 \<or> q > 1 then sB else B)
                   in if how_and how 1 \<or> q > 1 then
                        (case cublasDgemm cols rows K 1 opB 0 cols opA offA K 0 (subC s) 0 cols of
                           Inl e \<Rightarrow> Inl e
                         | Inr sC \<Rightarrow>
                             (case putBack mem (i * pM) (j * qN) rows cols M N sC (Cbuf s) how of
                                Inl e \<Rightarrow> Inl e
                              | Inr C' \<Rightarrow> Inr \<lparr>subA = sA, subB = sB, subC = sC, Cbuf = C'\<rparr>))
                      else
                        (case cublasDgemm cols rows K 1 opB 0 cols opA offA K 0 (Cbuf s)
                                (i * pM * N) cols of
                           Inl e \<Rightarrow> Inl e
                         | Inr C' \<Rightarrow> Inr \<lparr>subA = sA, subB = sB, subC = subC s, Cbuf = C'\<rparr>))))"

text \<open>
  \<open>myDgemm\<close>: the scratch buffers are allocated for the largest block, the blocks are
  processed row by row, and the result is what \<open>C\<close> holds at the end. \<open>M / p\<close> with
  \<open>p = 0\<close> is a division by zero.
\<close>

definition myDgemm :: "(nat \<Rightarrow> 'a) \<Rightarrow> nat \<Rightarrow> nat \<Rightarrow> nat \<Rightarrow> nat \<Rightarrow> nat \<Rightarrow> 'a::comm_semiring_1 list \<Rightarrow> 'a list \<Rightarrow>
    'a list \<Rightarrow> mmtype \<Rightarrow> cerr + 'a list" where
  "myDgemm mem p q M N K A B C how =
     (if p = 0 \<or> q = 0 then Inl DivisionByZero
      else
        let pM = M div p; qN = N div q;
            rows = pM + (M mod p); cols = qN + (N mod q);
            s0 = \<lparr>subA = (if how_and how 4 then alloc mem (rows * K) else []),
                  subB = (if how_and how 2 \<or> q > 1 then alloc mem (K * cols) else []),
                  subC = (if how_and how 1 \<or> q > 1 then alloc mem (rows * cols) else []),
                  Cbuf = C\<rparr>
        in case fold_err (\<lambda>i. fold_err (\<lambda>j. dgemm_block mem p q M N K A B how i j) [0..<q])
                  [0..<p] s0 of
             Inl e \<Rightarrow> Inl e
           | Inr s \<Rightarrow> Inr (Cbuf s))"

text \<open>
  The single unpartitioned multiply that the blocked one is compared with: one
  \<open>cublasDgemm\<close> call on the whole row-major matrices, writing the whole of \<open>C\<close>.
\<close>

definition single_Dgemm :: "nat \<Rightarrow> nat \<Rightarrow> nat \<Rightarrow> 'a::comm_semiring_1 list \<Rightarrow> 'a list \<Rightarrow> 'a list \<Rightarrow> cerr + 'a list" where
  "single_Dgemm M N K A B C = cublasDgemm N M K 1 B 0 N A 0 K 0 C 0 N"

text \<open>The entry \<open>(r, c)\<close> of the product of the row-major matrices \<open>A\<close> and \<open>B\<close>.\<close>

definition prod_entry :: "nat \<Rightarrow> nat \<Rightarrow> 'a::comm_semiring_1 list \<Rightarrow> 'a list \<Rightarrow> nat \<Rightarrow> nat \<Rightarrow> 'a" where
  "prod_entry N K A B r c = (\<Sum>t \<leftarrow> [0..<K]. A ! (r * K + t) * B ! (t * N + c))"

text \<open>
  The sizes of the scratch buffers, as \<open>myDgemm\<close> allocates them, and of \<open>C\<close>: what
  every iteration of the loops finds and leaves.
\<close>

definition scratch_ok :: "nat \<Rightarrow> nat \<Rightarrow> nat \<Rightarrow> nat \<Rightarrow> nat \<Rightarrow> mmtype \<Rightarrow> 'a dgemm_state \<Rightarrow> bool" where
  "scratch_ok p q M N K how s \<longleftrightarrow>
     (how_and how 4 \<longrightarrow> length (subA s) = (M div p + M mod p) * K) \<and>
     (how_and how 2 \<or> q > 1 \<longrightarrow> length (subB s) = K * (N div q + N mod q)) \<and>
     (how_and how 1 \<or> q > 1 \<longrightarrow> length (subC s) = (M div p + M mod p) * (N div q + N mod q)) \<and>
     length (Cbuf s) = M * N"

text \<open>
  Where the blocks \<open>0, ..., i - 1\<close> out of \<open>p\<close> end: block \<open>i\<close> starts at
  \<open>i * (M / p)\<close>, and the last block ends at \<open>M\<close>.
\<close>

definition span_end :: "nat \<Rightarrow> nat \<Rightarrow> nat \<Rightarrow> nat" where
  "span_end M p i = (if i = p then M else i * (M div p))"

text \<open>A 3 x 2 matrix, a 2 x 3 matrix and an output buffer with old contents.\<close>

definition ex_MA :: "int list" where "ex_MA = [1, 2, 3, 4, 5, 6]"
definition ex_MB :: "int list" where "ex_MB = [1, 0, 2, 0, 1, 3]"
definition ex_MC :: "int list" where "ex_MC = [9, 9, 9, 9, 9, 9, 9, 9, 9]"

section \<open>The contraction planner (Network.h)\<close>

text \<open>
  Network.h declares \<open>Node_t\<close> and \<open>Network_t\<close> with their fields and member
  functions; the bodies are not in the repository's sources here. A node carries its
  labels, its bonds and its element count; a leaf is the tensor of a given index, an
  internal node has two children and the \<open>point\<close> that \<open>metric\<close> gave the merge. Of a
  bond (class \<open>Bond_t\<close>, declared elsewhere) nothing is used but what
  \<open>cal_elemNum\<close> computes from a bond list, so the bond type and \<open>cal_elemNum\<close> are
  parameters.
\<close>

datatype 'b Node_t =
    Leaf_t nat "int list" "'b list" int
  | Inner_t "'b Node_t" "'b Node_t" "int list" "'b list" int int

fun labels_of :: "'b Node_t \<Rightarrow> int list" where
  "labels_of (Leaf_t k ls bs e) = ls"
| "labels_of (Inner_t l r ls bs e pt) = ls"

fun bonds_of :: "'b Node_t \<Rightarrow> 'b list" where
  "bonds_of (Leaf_t k ls bs e) = bs"
| "bonds_of (Inner_t l r ls bs e pt) = bs"

fun elemNum_of :: "'b Node_t \<Rightarrow> int" where
  "elemNum_of (Leaf_t k ls bs e) = e"
| "elemNum_of (Inner_t l r ls bs e pt) = e"

text \<open>The earliest leaf below a node.\<close>

fun first_leaf :: "'b Node_t \<Rightarrow> nat" where
  "first_leaf (Leaf_t k ls bs e) = k"
| "first_leaf (Inner_t l r ls bs e pt) = min (first_leaf l) (first_leaf r)"

text \<open>
  Modelled from the spec: \<open>Node_t::contract\<close> is declared only. The spec: a new internal
  node whose bonds are those of the symmetric difference of the two label sets, with
  \<open>elemNum\<close> computed from the bonds. The bonds that remain are those of the first node
  whose label the second lacks, then those of the second whose label the first lacks.
\<close>

definition remaining :: "'b Node_t \<Rightarrow> 'b Node_t \<Rightarrow> (int \<times> 'b) list" where
  "remaining a b =
     filter (\<lambda>(l, bd). l \<notin> set (labels_of b)) (zip (labels_of a) (bonds_of a)) @
     filter (\<lambda>(l, bd). l \<notin> set (labels_of a)) (zip (labels_of b) (bonds_of b))"

text \<open>
  Modelled from the spec: \<open>Node_t::metric\<close> is declared only. The spec:
  \<open>point = elemNum(merged) - max(elemNum(self), elemNum(other))\<close>, lower is better. The
  header's \<open>float\<close> is an integer here.
\<close>

definition metric :: "('b list \<Rightarrow> int) \<Rightarrow> 'b Node_t \<Rightarrow> 'b Node_t \<Rightarrow> int" where
  "metric cal_elemNum a b =
     cal_elemNum (map snd (remaining a b)) - max (elemNum_of a) (elemNum_of b)"

text \<open>
  Modelled from the spec: \<open>Node_t::contract\<close> (declared only) returns the internal node
  of the two, with the remaining labels and bonds, their \<open>elemNum\<close> and the metric.
\<close>

definition contract_node :: "('b list \<Rightarrow> int) \<Rightarrow> 'b Node_t \<Rightarrow> 'b Node_t \<Rightarrow> 'b Node_t" where
  "contract_node cal_elemNum a b =
     Inner_t a b (map fst (remaining a b)) (map snd (remaining a b))
       (cal_elemNum (map snd (remaining a b))) (metric cal_elemNum a b)"

text \<open>
  Modelled from the spec: two roots are candidates for a merge when they share at least
  one label (the test is part of \<open>Network_t::construct\<close>, declared only).
\<close>

definition shares_label :: "'b Node_t \<Rightarrow> 'b Node_t \<Rightarrow> bool" where
  "shares_label a b \<longleftrightarrow> (\<exists>l \<in> set (labels_of a). l \<in> set (labels_of b))"

text \<open>
  Modelled from the spec: the order in which the greedy step of \<open>Network_t::construct\<close>
  (declared only) compares pairs. The spec: pick the pair minimising the metric; ties
  are broken by the lower combined \<open>elemNum\<close>, then by the earlier leaf index. The key
  of a pair is (metric, sum of the two \<open>elemNum\<close>, earliest leaf of the pair), compared
  lexicographically.
\<close>

definition pair_key :: "('b list \<Rightarrow> int) \<Rightarrow> 'b Node_t list \<Rightarrow> nat \<times> nat \<Rightarrow> int \<times> int \<times> nat" where
  "pair_key cal_elemNum roots ij =
     (metric cal_elemNum (roots ! fst ij) (roots ! snd ij),
      elemNum_of (roots ! fst ij) + elemNum_of (roots ! snd ij),
      min (first_leaf (roots ! fst ij)) (first_leaf (roots ! snd ij)))"

text \<open>
  Modelled from the spec: the pairs that the greedy step of \<open>Network_t::construct\<close>
  considers, all pairs of current tree roots that share at least one label, in the order
  of the roots.
\<close>

definition candidates :: "'b Node_t list \<Rightarrow> (nat \<times> nat) list" where
  "candidates roots =
     concat (map (\<lambda>i. map (Pair i)
                        (filter (\<lambda>j. shares_label (roots ! i) (roots ! j))
                           [Suc i..<length roots]))
               [0..<length roots])"

text \<open>
  Modelled from the spec: the scan of the greedy step of \<open>Network_t::construct\<close>. A
  pair replaces the best one so far when its key is strictly smaller.
\<close>

fun scan_best :: "('c \<Rightarrow> 'k::linorder) \<Rightarrow> 'c list \<Rightarrow> 'c option \<Rightarrow> 'c option" where
  "scan_best key [] best = best"
| "scan_best key (c # cs) None = scan_best key cs (Some c)"
| "scan_best key (c # cs) (Some b) =
     scan_best key cs (if key c < key b then Some c else Some b)"

text \<open>
  Modelled from the spec: the pair that the greedy step of \<open>Network_t::construct\<close>
  picks, if any two roots share a label.
\<close>

definition greedy_pick :: "('b list \<Rightarrow> int) \<Rightarrow> 'b Node_t list \<Rightarrow> (nat \<times> nat) option" where
  "greedy_pick cal_elemNum roots =
     scan_best (pair_key cal_elemNum roots) (candidates roots) None"

text \<open>
  Modelled from the spec: one greedy step of \<open>Network_t::construct\<close>. The spec: merge
  into an internal node, remove the two roots, add the merged root.
\<close>

definition greedy_step :: "('b list \<Rightarrow> int) \<Rightarrow> 'b Node_t list \<Rightarrow> 'b Node_t list option" where
  "greedy_step cal_elemNum roots =
     (case greedy_pick cal_elemNum roots of
        None \<Rightarrow> None
      | Some (i, j) \<Rightarrow>
          Some (map ((!) roots) (filter (\<lambda>k. k \<noteq> i \<and> k \<noteq> j) [0..<length roots]) @
                [contract_node cal_elemNum (roots ! i) (roots ! j)]))"

text \<open>
  Modelled from the spec: the greedy part of \<open>Network_t::construct\<close> repeats the step
  until no two roots share a label.
\<close>

function construct_greedy :: "('b list \<Rightarrow> int) \<Rightarrow> 'b Node_t list \<Rightarrow> 'b Node_t list" where
  "construct_greedy cal_elemNum roots =
     (case greedy_step cal_elemNum roots of
        None \<Rightarrow> roots
      | Some roots' \<Rightarrow>
          if length roots' < length roots then construct_greedy cal_elemNum roots' else roots')"
  by pat_completeness auto
termination
  by (relation "measure (\<lambda>(c, roots). length roots)") auto

text \<open>Three tensors in a ring, with bond dimensions 2, 3 and 4; the bonds are their dimensions.\<close>

definition ex_ring :: "nat Node_t list" where
  "ex_ring = [Leaf_t 0 [1, 2] [2, 3] 6, Leaf_t 1 [2, 3] [3, 4] 12, Leaf_t 2 [3, 1] [4, 2] 8]"

definition ex_cal :: "nat list \<Rightarrow> int" where
  "ex_cal bs = int (prod_list bs)"

subsection \<open>Launching a network\<close>

text \<open>
  The fields of \<open>Network_t\<close> that a launch reads or writes, as Network.h declares them:
  the bound tensors (the network holds references, so a gate applied to a leaf changes the
  bound tensor), the swap list and the swap flag of each leaf, the root of the tree, the
  \<open>load\<close> flag, and the last entry of \<open>label_arr\<close> and \<open>Rnums\<close>, the labels and the
  incoming-bond count of the output. The tensor type, the swap type and the tensor
  operations (\<open>addGate\<close>, \<open>contract\<close>, \<open>permute\<close>) are parameters.
\<close>

record ('t, 's) Network_t =
  tensors :: "'t list"
  swaps_arr :: "'s list list"
  swapflags :: "bool list"
  root :: "unit Node_t option"
  load :: bool
  label_TOUT :: "int list"
  Rnum_TOUT :: int

datatype launch_err = UnboundTensor | TensorError

text \<open>
  Modelled from the spec: the swap pass of \<open>Network_t::launch\<close> (declared only). The
  spec: on the first visit the swap list cached for each leaf is applied; the source
  carries flags to avoid double application. A leaf whose flag is not set gets its swap
  list applied (\<open>addGate\<close> works on the tensor itself), and its flag is set.
\<close>

definition apply_swaps :: "('s list \<Rightarrow> 't \<Rightarrow> 't) \<Rightarrow> ('t, 's) Network_t \<Rightarrow> ('t, 's) Network_t" where
  "apply_swaps addGate n =
     n\<lparr>tensors := map (\<lambda>k. if swapflags n ! k then tensors n ! k
                            else addGate (swaps_arr n ! k) (tensors n ! k))
                   [0..<length (tensors n)],
       swapflags := map (\<lambda>k. True) [0..<length (swapflags n)]\<rparr>"

text \<open>
  Modelled from the spec: \<open>Network_t::merge\<close> (declared only). The spec: postorder
  traversal, each internal node's result is the contraction of its children's results; a
  leaf that is not bound is an \<open>UnboundTensor\<close> error.
\<close>

fun merge_t :: "('t \<Rightarrow> 't \<Rightarrow> launch_err + 't) \<Rightarrow> 't list \<Rightarrow> unit Node_t \<Rightarrow> launch_err + 't" where
  "merge_t contract_t ts (Leaf_t k ls bs e) =
     (if k < length ts then Inr (ts ! k) else Inl UnboundTensor)"
| "merge_t contract_t ts (Inner_t l r ls bs e pt) =
     (case merge_t contract_t ts l of
        Inl err \<Rightarrow> Inl err
      | Inr a \<Rightarrow>
          (case merge_t contract_t ts r of
             Inl err \<Rightarrow> Inl err
           | Inr b \<Rightarrow> contract_t a b))"

text \<open>
  Modelled from the spec: \<open>Network_t::launch\<close> (declared only). The spec: an unloaded
  network is constructed first; the swap lists are applied; the tree is contracted in
  postorder; if an output entry is present, the result is permuted to its label order
  and incoming-bond count. \<open>construct\<close> is the parameter \<open>construct_t\<close>.
\<close>

definition launch_t :: "(('t, 's) Network_t \<Rightarrow> ('t, 's) Network_t) \<Rightarrow> ('s list \<Rightarrow> 't \<Rightarrow> 't) \<Rightarrow>
    ('t \<Rightarrow> 't \<Rightarrow> launch_err + 't) \<Rightarrow> (int list \<Rightarrow> int \<Rightarrow> 't \<Rightarrow> launch_err + 't) \<Rightarrow>
    ('t, 's) Network_t \<Rightarrow> ('t, 's) Network_t \<times> (launch_err + 't)" where
  "launch_t construct_t addGate contract_t permute_t n =
     (let n1 = (if load n then n else construct_t n);
          n2 = apply_swaps addGate n1
      in (n2,
          case root n2 of
            None \<Rightarrow> Inl TensorError
          | Some rt \<Rightarrow>
              (case merge_t contract_t (tensors n2) rt of
                 Inl err \<Rightarrow> Inl err
               | Inr t \<Rightarrow>
                   if length (label_TOUT n2) > 0
                   then permute_t (label_TOUT n2) (Rnum_TOUT n2) t else Inr t)))"

text \<open>
  Two leaves that are lists of numbers; a swap negates an entry, the contraction is the
  element-wise product.
\<close>

definition ex_net :: "(int list, nat) Network_t" where
  "ex_net = \<lparr>tensors = [[1, 2], [3, 4]], swaps_arr = [[0], []], swapflags = [False, False],
             root = Some (Inner_t (Leaf_t 0 [1] [()] 2) (Leaf_t 1 [1] [()] 2) [] [] 1 (- 1)),
             load = True, label_TOUT = [], Rnum_TOUT = 0\<rparr>"

definition ex_addGate :: "nat list \<Rightarrow> int list \<Rightarrow> int list" where
  "ex_addGate sw t = fold (\<lambda>k t'. t'[k := - (t' ! k)]) sw t"

definition ex_contract :: "int list \<Rightarrow> int list \<Rightarrow> launch_err + int list" where
  "ex_contract a b = Inr (map2 (*) a b)"

definition ex_permute :: "int list \<Rightarrow> int \<Rightarrow> int list \<Rightarrow> launch_err + int list" where
  "ex_permute ls r t = Inr t"

text \<open>A network for the numpy path: two 2 x 2 tensors that share the label 1.\<close>

definition ex_U2 :: "int UniTensor" where
  "ex_U2 = \<lparr>ut_blockQnum = [Qnum 0], ut_bond = [(BD_IN, 2), (BD_OUT, 2)], ut_label = [1, 2],
            ut_bondNum = 2, ut_inBondNum = 1, ut_typeID = 1, ut_elem = [1, 0, 0, 1],
            ut_name = ''''\<rparr>"

definition ex_pynet :: "int Network" where
  "ex_pynet = \<lparr>net_load = False, net_root = None, net_labelTOUT = [], net_inBondNumTOUT = 0\<rparr>"

definition ex_construct :: "int Network \<Rightarrow> pyerr + int Network" where
  "ex_construct n =
     Inr (n\<lparr>net_load := True, net_root := Some (InnerNode (LeafNode ex_U) (LeafNode ex_U2))\<rparr>)"

definition ex_mk_ut :: "bool \<Rightarrow> (bondType \<times> nat) list \<Rightarrow> int list \<Rightarrow> int list \<Rightarrow> pyerr + int list" where
  "ex_mk_ut cplx bds elems labs = Inr elems"


section \<open>The block layout of a symmetric tensor (UniTensor.h)\<close>

text \<open>
  UniTensor.h declares the fields of a tensor (\<open>bonds\<close>, \<open>blocks\<close>, \<open>labels\<close>,
  \<open>RBondNum\<close>, the maps from \<open>Qidx\<close> to offsets), \<open>grouping\<close> and \<open>initBlocks\<close>, which
  build the block map, and the operations \<open>setRawElem\<close>, \<open>permute\<close>, \<open>contract\<close>,
  \<open>combineBond\<close> and \<open>partialTrace\<close>; their bodies, and the classes \<open>Bond\<close>, \<open>Qnum\<close>
  and \<open>Block\<close>, are not in the repository's sources here. A charge is an element of an
  abelian group with a total order (spec section 3: equality, total order, addition,
  negation).
\<close>


text \<open>
  Modelled from the spec: a \<open>Bond\<close> (Bond.h is missing) is a direction and an ordered
  sequence of (charge, multiplicity) pairs.
\<close>

record 'q Bond =
  bd_type :: bondType
  bd_states :: "('q \<times> nat) list"

text \<open>
  Modelled from the spec: the charge of each basis state of a bond, in order; the
  dimension of the bond is the sum of the multiplicities.
\<close>

definition bond_charges :: "'q Bond \<Rightarrow> 'q list" where
  "bond_charges b = concat (map (\<lambda>(q, m). replicate m q) (bd_states b))"

definition bond_dim :: "'q Bond \<Rightarrow> nat" where
  "bond_dim b = sum_list (map snd (bd_states b))"





text \<open>
  Modelled from the spec: \<open>q_row\<close> and \<open>q_col\<close>, the sum of the charges of the states
  that a multi-index selects on a list of bonds.
\<close>

definition charge_sum :: "'q::comm_monoid_add Bond list \<Rightarrow> nat list \<Rightarrow> 'q" where
  "charge_sum bs idx = sum_list (map2 (\<lambda>b i. bond_charges b ! i) bs idx)"

text \<open>
  Modelled from the spec: the first \<open>R\<close> bonds are flattened into the row multi-index,
  the remaining bonds into the column multi-index, both in lexicographic order.
\<close>

definition row_indices :: "'q Bond list \<Rightarrow> nat \<Rightarrow> nat list list" where
  "row_indices bonds R = indices (map bond_dim (take R bonds))"

definition col_indices :: "'q Bond list \<Rightarrow> nat \<Rightarrow> nat list list" where
  "col_indices bonds R = indices (map bond_dim (drop R bonds))"

text \<open>
  Modelled from the spec: the rows (columns) of the block of charge \<open>q\<close> are the row
  (column) multi-indices of charge \<open>q\<close>, ordered by sub-index.
\<close>

definition block_row_indices :: "'q::comm_monoid_add Bond list \<Rightarrow> nat \<Rightarrow> 'q \<Rightarrow> nat list list" where
  "block_row_indices bonds R q =
     filter (\<lambda>idx. charge_sum (take R bonds) idx = q) (row_indices bonds R)"

definition block_col_indices :: "'q::comm_monoid_add Bond list \<Rightarrow> nat \<Rightarrow> 'q \<Rightarrow> nat list list" where
  "block_col_indices bonds R q =
     filter (\<lambda>idx. charge_sum (drop R bonds) idx = q) (col_indices bonds R)"

text \<open>
  Modelled from the spec: the block for charge \<open>q\<close> exists iff a combination of incoming
  states and a combination of outgoing states both sum to \<open>q\<close>. The block map is keyed
  by charge, so the blocks are kept in ascending order of charge.
\<close>

definition block_charges :: "'q::{comm_monoid_add,linorder} Bond list \<Rightarrow> nat \<Rightarrow> 'q list" where
  "block_charges bonds R =
     sort (remdups (filter (\<lambda>q. block_col_indices bonds R q \<noteq> [])
                      (map (charge_sum (take R bonds)) (row_indices bonds R))))"



text \<open>
  Modelled from the spec: the layout bijection. \<open>locate\<close> goes from a pair of
  multi-indices to a block charge and the offsets in that block (none when
  \<open>q_row \<noteq> q_col\<close>): the offset of a multi-index is the number of multi-indices of the
  same charge before it. \<open>at_block\<close> goes back, from a position of the block of charge
  \<open>q\<close> to the pair of multi-indices.
\<close>

definition offset_in :: "('c \<Rightarrow> bool) \<Rightarrow> 'c list \<Rightarrow> 'c \<Rightarrow> nat" where
  "offset_in P xs x = length (filter P (takeWhile (\<lambda>y. y \<noteq> x) xs))"

definition locate :: "'q::comm_monoid_add Bond list \<Rightarrow> nat \<Rightarrow> nat list \<Rightarrow> nat list \<Rightarrow> ('q \<times> nat \<times> nat) option" where
  "locate bonds R ridx cidx =
     (let q = charge_sum (take R bonds) ridx in
      if charge_sum (drop R bonds) cidx = q
      then Some (q,
                 offset_in (\<lambda>idx. charge_sum (take R bonds) idx = q) (row_indices bonds R) ridx,
                 offset_in (\<lambda>idx. charge_sum (drop R bonds) idx = q) (col_indices bonds R) cidx)
      else None)"

definition at_block :: "'q::comm_monoid_add Bond list \<Rightarrow> nat \<Rightarrow> 'q \<Rightarrow> nat \<Rightarrow> nat \<Rightarrow> nat list \<times> nat list" where
  "at_block bonds R q r c = (block_row_indices bonds R q ! r, block_col_indices bonds R q ! c)"






































section \<open>Properties of the numpy tensor shim\<close>

subsection \<open>The label dictionary\<close>

lemma mapLabelBond_loop_fold:
  "\<forall>i \<in> set is. i < length lab \<Longrightarrow>
   mapLabelBond_loop lab is m = Inr (fold (\<lambda>i. AList.update (lab ! i) i) is m)"
  by (induction "is" arbitrary: m) auto

lemma mapLabelBond_loop_Inr_iff:
  "(\<exists>m'. mapLabelBond_loop lab is m = Inr m') \<longleftrightarrow> (\<forall>i \<in> set is. i < length lab)"
  by (induction "is" arbitrary: m) auto

lemma map_of_fold_other:
  "k \<notin> (\<lambda>i. lab ! i) ` set is \<Longrightarrow>
   map_of (fold (\<lambda>i. AList.update (lab ! i) i) is m) k = map_of m k"
  by (induction "is" arbitrary: m) (auto simp: update_conv')

lemma map_of_fold_hit:
  "distinct lab \<Longrightarrow> \<forall>j \<in> set is. j < length lab \<Longrightarrow> i \<in> set is \<Longrightarrow>
   map_of (fold (\<lambda>i. AList.update (lab ! i) i) is m) (lab ! i) = Some i"
proof (induction "is" arbitrary: m)
  case Nil
  then show ?case by simp
next
  case (Cons j js)
  show ?case
  proof (cases "i \<in> set js")
    case True
    with Cons show ?thesis by simp
  next
    case False
    with Cons.prems have ij: "i = j" by simp
    have "lab ! i \<notin> (\<lambda>i. lab ! i) ` set js"
    proof
      assume "lab ! i \<in> (\<lambda>i. lab ! i) ` set js"
      then obtain k where k: "k \<in> set js" "lab ! i = lab ! k" by auto
      with Cons.prems ij have "i = k"
        by (auto simp: nth_eq_iff_index_eq)
      with k False show False by simp
    qed
    then show ?thesis
      using ij by (simp add: map_of_fold_other update_conv')
  qed
qed

lemma shape_new_map:
  "\<forall>i \<in> set is. i < length lab \<and> map_of m (lab ! i) \<noteq> None \<Longrightarrow>
   shape_new m lab is = Inr (map (\<lambda>i. the (map_of m (lab ! i))) is)"
  by (induction "is") auto

lemma wf_pos_of:
  assumes "wf_NPTensor t" "distinct (label t)" "i < bn t"
  shows "map_of (lbmap t) (label t ! i) = Some i"
proof -
  from assms(1) have len: "length (label t) = bn t"
    and lp: "mapLabelBond_loop (label t) [0..<bn t] [] = Inr (lbmap t)"
    by (auto simp: wf_NPTensor_def)
  have "mapLabelBond_loop (label t) [0..<bn t] [] =
        Inr (fold (\<lambda>i. AList.update (label t ! i) i) [0..<bn t] [])"
    by (rule mapLabelBond_loop_fold) (simp add: len)
  with lp have "lbmap t = fold (\<lambda>i. AList.update (label t ! i) i) [0..<bn t] []" by simp
  then show ?thesis
    using map_of_fold_hit[of "label t" "[0..<bn t]" i "[]"] assms(2,3) len by simp
qed

lemma perm_axes:
  assumes "distinct lab'" "length lab' = n" "mset lab = mset lab'"
    and "\<And>i. i < n \<Longrightarrow> f (lab' ! i) = i"
  shows "length (map f lab) = n" "distinct (map f lab)" "\<forall>k \<in> set (map f lab). k < n"
proof -
  have sl: "set lab = set lab'" using assms(3) by (metis set_mset_mset)
  have dl: "distinct lab" using assms(1,3) by (metis mset_eq_imp_distinct_iff)
  show "length (map f lab) = n" using assms(2,3) by (metis length_map size_mset)
  have inj: "inj_on f (set lab)"
  proof (rule inj_onI)
    fix x y assume "x \<in> set lab" "y \<in> set lab" "f x = f y"
    then obtain i j where "i < n" "j < n" "x = lab' ! i" "y = lab' ! j"
      using sl assms(2) by (metis in_set_conv_nth)
    with \<open>f x = f y\<close> assms(4) show "x = y" by metis
  qed
  show "distinct (map f lab)" using dl inj by (simp add: distinct_map)
  show "\<forall>k \<in> set (map f lab). k < n"
  proof
    fix k assume "k \<in> set (map f lab)"
    then obtain x where "x \<in> set lab" "k = f x" by auto
    then obtain i where "i < n" "x = lab' ! i" using sl assms(2) by (metis in_set_conv_nth)
    with \<open>k = f x\<close> assms(4) show "k < n" by simp
  qed
qed

lemma permute_result:
  assumes wf: "wf_NPTensor A" and d: "distinct (label A)" and p: "mset lab = mset (label A)"
  shows "permute A lab k =
         Inr \<lparr>arr = \<lparr>shape = map (\<lambda>x. shape (arr A) ! pos_of A x) lab,
                     strides = map (\<lambda>x. strides (arr A) ! pos_of A x) lab,
                     buf = buf (arr A)\<rparr>,
              label = lab, bn = bn A, ibn = (if k \<ge> 0 then k else ibn A),
              lbmap = fold (\<lambda>i. AList.update (lab ! i) i) [0..<bn A] []\<rparr>"
proof -
  from wf have len: "length (label A) = bn A" and bnA: "bn A = length (shape (arr A))"
    by (auto simp: wf_NPTensor_def)
  have ll: "length lab = bn A" using p len by (metis size_mset)
  have sl: "set lab = set (label A)" using p by (metis set_mset_mset)
  have pos: "\<And>i. i < bn A \<Longrightarrow> pos_of A (label A ! i) = i"
    using wf_pos_of[OF wf d] by (simp add: pos_of_def)
  have dom: "\<forall>i \<in> set [0..<bn A]. i < length lab \<and> map_of (lbmap A) (lab ! i) \<noteq> None"
  proof
    fix i assume "i \<in> set [0..<bn A]"
    then have i: "i < length lab" using ll by simp
    then have "lab ! i \<in> set (label A)" using sl by (metis nth_mem)
    then obtain j where "j < bn A" "lab ! i = label A ! j" using len by (metis in_set_conv_nth)
    then show "i < length lab \<and> map_of (lbmap A) (lab ! i) \<noteq> None"
      using i wf_pos_of[OF wf d] by simp
  qed
  have "shape_new (lbmap A) lab [0..<bn A] =
        Inr (map (\<lambda>i. the (map_of (lbmap A) (lab ! i))) [0..<bn A])"
    by (rule shape_new_map[OF dom])
  also have "map (\<lambda>i. the (map_of (lbmap A) (lab ! i))) [0..<bn A] = map (pos_of A) lab"
    using ll by (simp add: pos_of_def list_eq_iff_nth_eq)
  finally have sn: "shape_new (lbmap A) lab [0..<bn A] = Inr (map (pos_of A) lab)" .
  note ax = perm_axes[OF d len p pos]
  have tr: "np_transpose (map (pos_of A) lab) (arr A) =
            Inr \<lparr>shape = map (\<lambda>x. shape (arr A) ! pos_of A x) lab,
                 strides = map (\<lambda>x. strides (arr A) ! pos_of A x) lab,
                 buf = buf (arr A)\<rparr>"
    using ax bnA by (simp add: np_transpose_def o_def)
  have ml: "mapLabelBond_loop lab [0..<bn A] [] =
            Inr (fold (\<lambda>i. AList.update (lab ! i) i) [0..<bn A] [])"
    by (rule mapLabelBond_loop_fold) (simp add: ll)
  show ?thesis
    using sl ll len sn tr ml by (simp add: permute_def setLabel_def mapLabelBond_def)
qed

lemma permute_wf:
  assumes wf: "wf_NPTensor A" and d: "distinct (label A)" and p: "mset lab = mset (label A)"
    and r: "permute A lab k = Inr B"
  shows "wf_NPTensor B"
proof -
  from wf have len: "length (label A) = bn A" and bnA: "bn A = length (shape (arr A))"
    by (auto simp: wf_NPTensor_def)
  have ll: "length lab = bn A" using p len by (metis size_mset)
  have ml: "mapLabelBond_loop lab [0..<bn A] [] =
            Inr (fold (\<lambda>i. AList.update (lab ! i) i) [0..<bn A] [])"
    by (rule mapLabelBond_loop_fold) (simp add: ll)
  show ?thesis
    using r ll bnA ml unfolding permute_result[OF wf d p] by (auto simp: wf_NPTensor_def)
qed

lemma setLabel_unfold:
  assumes "bn t = length (shape (arr t))"
  shows "setLabel t lab =
         (if length lab = length (shape (arr t))
          then Inr (t\<lparr>label := lab, lbmap := fold (\<lambda>i. AList.update (lab ! i) i) [0..<bn t] []\<rparr>)
          else Inl AssertionError)"
  using assms mapLabelBond_loop_fold[of "[0..<bn t]" lab "[]"]
  by (simp add: setLabel_def mapLabelBond_def)

lemma ex_A_wf: "wf_NPTensor ex_A"
  by (simp add: wf_NPTensor_def ex_A_def upt_rec AList.update.simps)

subsection \<open>Permuting and permuting back\<close>

text \<open>
  Claim C1. For every tensor \<open>A\<close> (an NPTensor satisfying the class invariant, with
  pairwise distinct labels and a non-negative incoming-bond count), every permutation
  \<open>lab\<close> of its labels and every IN/OUT split \<open>k\<close> (a negative \<open>k\<close> keeps the split):
  \<open>A.permute(lab, k)\<close> succeeds, and permuting the result back to \<open>A\<close>'s labels and
  \<open>A\<close>'s split returns a tensor equal to \<open>A\<close> in every field: buffer, shape, strides,
  labels, \<open>bn\<close>, \<open>ibn\<close> and \<open>lbmap\<close>.
\<close>

theorem permute_inverse:
  assumes wf: "wf_NPTensor A" and d: "distinct (label A)" and i0: "0 \<le> ibn A"
    and p: "mset lab = mset (label A)"
  shows "\<exists>B. permute A lab k = Inr B \<and> permute B (label A) (ibn A) = Inr A"
proof -
  define B where "B = \<lparr>arr = \<lparr>shape = map (\<lambda>x. shape (arr A) ! pos_of A x) lab,
                     strides = map (\<lambda>x. strides (arr A) ! pos_of A x) lab,
                     buf = buf (arr A)\<rparr>,
              label = lab, bn = bn A, ibn = (if k \<ge> 0 then k else ibn A),
              lbmap = fold (\<lambda>i. AList.update (lab ! i) i) [0..<bn A] []\<rparr>"
  have AB: "permute A lab k = Inr B"
    unfolding B_def by (rule permute_result[OF wf d p])
  have wfB: "wf_NPTensor B" by (rule permute_wf[OF wf d p AB])
  from wf have len: "length (label A) = bn A" and bnA: "bn A = length (shape (arr A))"
    and stA: "length (strides (arr A)) = length (shape (arr A))"
    and lbA: "mapLabelBond_loop (label A) [0..<bn A] [] = Inr (lbmap A)"
    by (auto simp: wf_NPTensor_def)
  have ll: "length lab = bn A" using p len by (metis size_mset)
  have sl: "set lab = set (label A)" using p by (metis set_mset_mset)
  have dB: "distinct (label B)" using d p by (simp add: B_def) (metis mset_eq_imp_distinct_iff)
  have pB: "mset (label A) = mset (label B)" using p by (simp add: B_def)
  have posA: "\<And>i. i < bn A \<Longrightarrow> pos_of A (label A ! i) = i"
    using wf_pos_of[OF wf d] by (simp add: pos_of_def)
  have posB: "\<And>j. j < bn A \<Longrightarrow> pos_of B (lab ! j) = j"
    using wf_pos_of[OF wfB dB] by (simp add: pos_of_def B_def)
  have rt: "\<And>i. i < bn A \<Longrightarrow> pos_of A (lab ! pos_of B (label A ! i)) = i"
  proof -
    fix i assume i: "i < bn A"
    then have "label A ! i \<in> set lab" using sl len by (metis nth_mem)
    then obtain j where j: "j < bn A" "label A ! i = lab ! j" using ll by (metis in_set_conv_nth)
    then show "pos_of A (lab ! pos_of B (label A ! i)) = i"
      using posB[OF j(1)] posA[OF i] by simp
  qed
  have inr: "\<And>i. i < bn A \<Longrightarrow> pos_of B (label A ! i) < bn A"
  proof -
    fix i assume i: "i < bn A"
    then have "label A ! i \<in> set lab" using sl len by (metis nth_mem)
    then obtain j where j: "j < bn A" "label A ! i = lab ! j" using ll by (metis in_set_conv_nth)
    then show "pos_of B (label A ! i) < bn A" using posB[OF j(1)] by simp
  qed
  have sh: "map (\<lambda>x. shape (arr B) ! pos_of B x) (label A) = shape (arr A)"
  proof (rule nth_equalityI)
    show "length (map (\<lambda>x. shape (arr B) ! pos_of B x) (label A)) = length (shape (arr A))"
      using len bnA by simp
  next
    fix i assume "i < length (map (\<lambda>x. shape (arr B) ! pos_of B x) (label A))"
    then have i: "i < bn A" using len by simp
    have "shape (arr B) ! pos_of B (label A ! i) =
          shape (arr A) ! pos_of A (lab ! pos_of B (label A ! i))"
      using inr[OF i] ll by (simp add: B_def)
    then show "map (\<lambda>x. shape (arr B) ! pos_of B x) (label A) ! i = shape (arr A) ! i"
      using i len rt[OF i] by simp
  qed
  have st: "map (\<lambda>x. strides (arr B) ! pos_of B x) (label A) = strides (arr A)"
  proof (rule nth_equalityI)
    show "length (map (\<lambda>x. strides (arr B) ! pos_of B x) (label A)) = length (strides (arr A))"
      using len bnA stA by simp
  next
    fix i assume "i < length (map (\<lambda>x. strides (arr B) ! pos_of B x) (label A))"
    then have i: "i < bn A" using len by simp
    have "strides (arr B) ! pos_of B (label A ! i) =
          strides (arr A) ! pos_of A (lab ! pos_of B (label A ! i))"
      using inr[OF i] ll by (simp add: B_def)
    then show "map (\<lambda>x. strides (arr B) ! pos_of B x) (label A) ! i = strides (arr A) ! i"
      using i len rt[OF i] by simp
  qed
  have lb: "fold (\<lambda>i. AList.update (label A ! i) i) [0..<bn B] [] = lbmap A"
    using lbA mapLabelBond_loop_fold[of "[0..<bn A]" "label A" "[]"] len by (simp add: B_def)
  have "permute B (label A) (ibn A) = Inr A"
    unfolding permute_result[OF wfB dB pB] sh st lb using i0 by (simp add: B_def)
  with AB show ?thesis by blast
qed

text \<open>The round trip on the 2 x 3 example, permuted to labels 3, 7 with two incoming bonds.\<close>

theorem permute_inverse_witness:
  "wf_NPTensor ex_A \<and> distinct (label ex_A) \<and> 0 \<le> ibn ex_A \<and> mset [3, 7] = mset (label ex_A) \<and>
   (\<exists>B. permute ex_A [3, 7] 2 = Inr B \<and> permute B (label ex_A) (ibn ex_A) = Inr ex_A)"
proof -
  have h1: "wf_NPTensor ex_A" by (rule ex_A_wf)
  have h2: "distinct (label ex_A)" by (simp add: ex_A_def)
  have h3: "0 \<le> ibn ex_A" by (simp add: ex_A_def)
  have h4: "mset [3, 7] = mset (label ex_A)" by (simp add: ex_A_def)
  show ?thesis using h1 h2 h3 h4 permute_inverse[OF h1 h2 h3 h4, of 2] by simp
qed

subsection \<open>setLabel\<close>

text \<open>
  Claim C6, as stated, asks \<open>setLabel\<close> to reject labels that are not pairwise
  distinct. The shim checks the number of labels only: two equal labels on a two-axis
  tensor are accepted, and \<open>lbmap\<close> keeps the last axis of the repeated label.
\<close>

theorem setLabel_duplicate_counterexample:
  "setLabel ex_A [5, 5] = Inr (ex_A\<lparr>label := [5, 5], lbmap := [(5, 1)]\<rparr>) \<and> \<not> distinct [5, 5 :: int]"
  by (simp add: setLabel_def mapLabelBond_def ex_A_def upt_rec AList.update.simps)

text \<open>
  Claim C6, amended. On a tensor whose \<open>bn\<close> is its number of axes, \<open>setLabel(lab)\<close>
  succeeds iff the number of new labels equals the number of axes, and fails with an
  AssertionError otherwise; distinctness is not checked. On success only \<open>label\<close> and
  the derived \<open>lbmap\<close> change: the array (shape, strides, elements), \<open>bn\<close> and \<open>ibn\<close>
  are the old ones.
\<close>

theorem setLabel_length_only:
  assumes "bn t = length (shape (arr t))"
  shows "setLabel t lab =
         (if length lab = length (shape (arr t))
          then Inr (t\<lparr>label := lab, lbmap := fold (\<lambda>i. AList.update (lab ! i) i) [0..<bn t] []\<rparr>)
          else Inl AssertionError)"
proof (cases "length lab = length (shape (arr t))")
  case False
  then show ?thesis by (simp add: setLabel_def)
next
  case True
  then have "mapLabelBond_loop lab [0..<bn t] [] =
             Inr (fold (\<lambda>i. AList.update (lab ! i) i) [0..<bn t] [])"
    using assms by (intro mapLabelBond_loop_fold) simp
  then show ?thesis using True by (simp add: setLabel_def mapLabelBond_def)
qed

theorem setLabel_length_only_witness:
  "bn ex_A = length (shape (arr ex_A)) \<and>
   setLabel ex_A [4, 9] = Inr (ex_A\<lparr>label := [4, 9], lbmap := [(4, 0), (9, 1)]\<rparr>) \<and>
   setLabel ex_A [4] = Inl AssertionError"
proof -
  have h: "bn ex_A = length (shape (arr ex_A))" by (simp add: ex_A_def)
  show ?thesis
    using setLabel_length_only[OF h, of "[4, 9]"] setLabel_length_only[OF h, of "[4]"]
    by (simp add: ex_A_def upt_rec AList.update.simps)
qed

subsection \<open>The constructor refuses tensors with quantum numbers\<close>




subsection \<open>The multi-indices of a shape\<close>

lemma length_indices: "length (indices s) = prod_list s"
proof (induction s)
  case Nil
  then show ?case by simp
next
  case (Cons d ds)
  have "length (concat (map (\<lambda>i. map ((#) i) (indices ds)) [0..<d])) =
        sum_list (map (\<lambda>i. prod_list ds) [0..<d])"
    by (simp add: length_concat Cons.IH o_def)
  also have "\<dots> = d * prod_list ds" by (simp add: sum_list_triv)
  finally show ?case by simp
qed

lemma set_indices: "set (indices s) = {idx. list_all2 (<) idx s}"
proof (induction s)
  case Nil
  then show ?case by auto
next
  case (Cons d ds)
  show ?case
  proof (rule set_eqI)
    fix idx
    show "idx \<in> set (indices (d # ds)) \<longleftrightarrow> idx \<in> {idx. list_all2 (<) idx (d # ds)}"
      using Cons.IH by (cases idx) (auto simp: list_all2_Cons2)
  qed
qed

lemma concat_map_Nil: "concat (map (\<lambda>i. []) xs) = []"
  by (induction xs) auto

lemma distinct_indices: "distinct (indices s)"
proof (induction s)
  case Nil
  then show ?case by simp
next
  case (Cons d ds)
  show ?case
  proof (cases "indices ds = []")
    case True
    then show ?thesis by (simp add: concat_map_Nil)
  next
    case False
    then obtain x xs where "indices ds = x # xs" by (cases "indices ds") auto
    then have inj: "inj_on (\<lambda>i. map ((#) i) (indices ds)) (set [0..<d])"
      by (auto simp: inj_on_def)
    have "distinct (concat (map (\<lambda>i. map ((#) i) (indices ds)) [0..<d]))"
    proof (rule distinct_concat)
      show "distinct (map (\<lambda>i. map ((#) i) (indices ds)) [0..<d])"
        using inj by (simp add: distinct_map)
    next
      fix ys assume "ys \<in> set (map (\<lambda>i. map ((#) i) (indices ds)) [0..<d])"
      then show "distinct ys" using Cons.IH by (auto simp: distinct_map)
    next
      fix ys zs
      assume "ys \<in> set (map (\<lambda>i. map ((#) i) (indices ds)) [0..<d])"
        "zs \<in> set (map (\<lambda>i. map ((#) i) (indices ds)) [0..<d])" "ys \<noteq> zs"
      then show "set ys \<inter> set zs = {}" by auto
    qed
    then show ?thesis by simp
  qed
qed

subsection \<open>Permutations of the axes\<close>

lemma perm_axes_mset:
  assumes "length axes = n" "distinct axes" "\<forall>k \<in> set axes. k < n"
  shows "mset axes = mset [0..<n]"
proof -
  have sub: "set axes \<subseteq> {0..<n}" using assms(3) by auto
  have "card (set axes) = n" using assms(1,2) by (simp add: distinct_card)
  then have "set axes = {0..<n}" using sub by (simp add: card_subset_eq)
  then have "set axes = set [0..<n]" by simp
  then show ?thesis using assms(2) set_eq_iff_mset_eq_distinct[of axes "[0..<n]"] by simp
qed

lemma sum_list_perm_axes:
  fixes f :: "nat \<Rightarrow> nat"
  assumes "mset axes = mset [0..<n]"
  shows "sum_list (map f axes) = sum_list (map f [0..<n])"
proof -
  have "mset (map f axes) = mset (map f [0..<n])" using assms by (metis mset_map)
  then show ?thesis by (metis sum_mset_sum_list)
qed

lemma prod_list_perm_axes:
  fixes f :: "nat \<Rightarrow> nat"
  assumes "mset axes = mset [0..<n]"
  shows "prod_list (map f axes) = prod_list (map f [0..<n])"
proof -
  have "mset (map f axes) = mset (map f [0..<n])" using assms by (metis mset_map)
  then show ?thesis by (metis prod_mset_prod_list)
qed

lemma offset_of_sum:
  "length idx = length st \<Longrightarrow>
   offset_of st idx = sum_list (map (\<lambda>k. idx ! k * st ! k) [0..<length st])"
proof -
  assume l: "length idx = length st"
  have "map2 (*) idx st = map (\<lambda>k. idx ! k * st ! k) [0..<length st]"
    by (rule nth_equalityI) (use l in auto)
  then show ?thesis by (simp add: offset_of_def)
qed

lemma offset_of_permuted:
  assumes "mset axes = mset [0..<n]" "length idx = n" "length st = n"
  shows "offset_of (map ((!) st) axes) (map ((!) idx) axes) = offset_of st idx"
proof -
  have "map2 (*) (map ((!) idx) axes) (map ((!) st) axes) = map (\<lambda>k. idx ! k * st ! k) axes"
    by (rule nth_equalityI) auto
  then have "offset_of (map ((!) st) axes) (map ((!) idx) axes) =
             sum_list (map (\<lambda>k. idx ! k * st ! k) axes)"
    by (simp add: offset_of_def)
  also have "\<dots> = sum_list (map (\<lambda>k. idx ! k * st ! k) [0..<n])"
    by (rule sum_list_perm_axes[OF assms(1)])
  also have "\<dots> = offset_of st idx" using offset_of_sum[of idx st] assms(2,3) by simp
  finally show ?thesis .
qed

subsection \<open>A transposed view holds the same elements\<close>

lemma np_transpose_Inr:
  assumes "np_transpose axes a = Inr v"
  shows "length axes = length (shape a)" "distinct axes" "\<forall>k \<in> set axes. k < length (shape a)"
    "v = \<lparr>shape = map ((!) (shape a)) axes, strides = map ((!) (strides a)) axes, buf = buf a\<rparr>"
  using assms by (auto simp: np_transpose_def split: if_splits)

lemma ravel_transpose:
  assumes tr: "np_transpose axes a = Inr v" and ls: "length (strides a) = length (shape a)"
  shows "mset (ravel v) = mset (ravel a) \<and> prod_list (shape v) = prod_list (shape a)"
proof -
  define n where "n = length (shape a)"
  define sh where "sh = shape a"
  define st where "st = strides a"
  define P where "P = (\<lambda>idx :: nat list. map ((!) idx) axes)"
  note ax = np_transpose_Inr[OF tr]
  have la: "length axes = n" and lt: "\<forall>k \<in> set axes. k < n" using ax by (simp_all add: n_def)
  have lsh: "length sh = n" and lst: "length st = n" using ls by (simp_all add: n_def sh_def st_def)
  have m: "mset axes = mset [0..<n]" by (rule perm_axes_mset[OF la ax(2) lt])
  have v: "shape v = map ((!) sh) axes" "strides v = map ((!) st) axes" "buf v = buf a"
    using ax(4) by (simp_all add: sh_def st_def)
  have pr: "prod_list (shape v) = prod_list sh"
  proof -
    have "prod_list (map ((!) sh) axes) = prod_list (map ((!) sh) [0..<n])"
      by (rule prod_list_perm_axes[OF m])
    also have "map ((!) sh) [0..<n] = sh" using lsh by (metis map_nth)
    finally show ?thesis using v by simp
  qed
  define S where "S = set (indices sh)"
  define S' where "S' = set (indices (shape v))"
  have Sd: "\<And>idx. idx \<in> S \<longleftrightarrow> length idx = n \<and> (\<forall>k<n. idx ! k < sh ! k)"
    using lsh by (auto simp: S_def set_indices list_all2_conv_all_nth)
  have sub: "P ` S \<subseteq> S'"
  proof
    fix y assume "y \<in> P ` S"
    then obtain idx where idx: "idx \<in> S" "y = P idx" by auto
    have "list_all2 (<) (map ((!) idx) axes) (map ((!) sh) axes)"
      using idx(1) lt la by (auto simp: Sd list_all2_conv_all_nth)
    then show "y \<in> S'" using idx(2) v by (simp add: S'_def set_indices P_def)
  qed
  have inj: "inj_on P S"
  proof (rule inj_onI)
    fix x y assume x: "x \<in> S" and y: "y \<in> S" and e: "P x = P y"
    show "x = y"
    proof (rule nth_equalityI)
      show "length x = length y" using x y by (simp add: Sd)
    next
      fix k assume "k < length x"
      then have "k < n" using x by (simp add: Sd)
      then have "k \<in> set axes" using m by (metis atLeastLessThan_iff set_mset_mset set_upt zero_le)
      then obtain j where j: "j < length axes" "axes ! j = k" by (metis in_set_conv_nth)
      from e have "P x ! j = P y ! j" by simp
      then show "x ! k = y ! k" using j by (simp add: P_def)
    qed
  qed
  have cS: "card S = prod_list sh"
    by (simp add: S_def distinct_card[OF distinct_indices] length_indices)
  have cS': "card S' = prod_list sh"
    by (simp add: S'_def distinct_card[OF distinct_indices] length_indices pr)
  have "card (P ` S) = card S'" using inj cS cS' by (simp add: card_image)
  then have img: "P ` S = S'" using sub by (simp add: card_subset_eq S'_def)
  have "mset (indices (shape v)) = mset_set S'"
    by (simp add: S'_def mset_set_set[OF distinct_indices])
  also have "\<dots> = image_mset P (mset_set S)"
    using img image_mset_mset_set[OF inj] by simp
  also have "mset_set S = mset (indices sh)"
    by (simp add: S_def mset_set_set[OF distinct_indices])
  finally have ms: "mset (indices (shape v)) = image_mset P (mset (indices sh))" .
  have it: "\<And>idx. idx \<in> S \<Longrightarrow> item v (P idx) = item a idx"
  proof -
    fix idx assume "idx \<in> S"
    then have "length idx = n" by (simp add: Sd)
    then have "offset_of (map ((!) st) axes) (map ((!) idx) axes) = offset_of st idx"
      using offset_of_permuted[OF m _ lst] by simp
    then show "item v (P idx) = item a idx"
      using v by (simp add: item_def P_def st_def)
  qed
  have "mset (ravel v) = image_mset (item v) (mset (indices (shape v)))"
    by (simp add: ravel_def)
  also have "\<dots> = image_mset (\<lambda>idx. item v (P idx)) (mset (indices sh))"
    by (simp add: ms multiset.map_comp o_def)
  also have "\<dots> = image_mset (item a) (mset (indices sh))"
    by (rule image_mset_cong) (simp add: it S_def)
  also have "\<dots> = mset (ravel a)" by (simp add: ravel_def sh_def)
  finally show ?thesis using pr by (simp add: sh_def)
qed

lemma permute_Inr_transpose:
  "permute A lab k = Inr B \<Longrightarrow> \<exists>axes. np_transpose axes (arr A) = Inr (arr B)"
  by (auto simp: permute_def setLabel_def mapLabelBond_def split: if_splits sum.splits)

lemma frobenius_norm_mset:
  assumes "mset (ravel a) = mset (ravel b)"
  shows "frobenius_norm a = frobenius_norm b"
proof -
  have "mset (map (\<lambda>x. x\<^sup>2) (ravel a)) = mset (map (\<lambda>x. x\<^sup>2) (ravel b))"
    using assms by (metis mset_map)
  then have "sum_list (map (\<lambda>x. x\<^sup>2) (ravel a)) = sum_list (map (\<lambda>x. x\<^sup>2) (ravel b))"
    by (metis sum_mset_sum_list)
  then show ?thesis by (simp add: frobenius_norm_def)
qed

text \<open>
  Claim C4. For every tensor \<open>A\<close> (an NPTensor satisfying the class invariant, with
  pairwise distinct labels), every permutation \<open>lab\<close> of its labels and every split \<open>k\<close>:
  \<open>A.permute(lab, k)\<close> succeeds, the Frobenius norm of the result equals that of \<open>A\<close>,
  and the number of elements is unchanged.
\<close>

theorem permute_norm:
  assumes wf: "wf_NPTensor A" and d: "distinct (label A)" and p: "mset lab = mset (label A)"
  shows "\<exists>B. permute A lab k = Inr B \<and>
             frobenius_norm (arr B) = frobenius_norm (arr A) \<and>
             elemNum (arr B) = elemNum (arr A)"
proof -
  obtain B where B: "permute A lab k = Inr B"
    using permute_result[OF wf d p] by blast
  then obtain axes where tr: "np_transpose axes (arr A) = Inr (arr B)"
    using permute_Inr_transpose by blast
  have ls: "length (strides (arr A)) = length (shape (arr A))"
    using wf by (simp add: wf_NPTensor_def)
  note rt = ravel_transpose[OF tr ls]
  have "frobenius_norm (arr B) = frobenius_norm (arr A)"
    using rt by (intro frobenius_norm_mset) simp
  moreover have "elemNum (arr B) = elemNum (arr A)"
    using rt by (simp add: elemNum_def)
  ultimately show ?thesis using B by blast
qed

text \<open>The real 2 x 3 example, permuted to labels 3, 7.\<close>

theorem permute_norm_witness:
  "wf_NPTensor ex_R \<and> distinct (label ex_R) \<and> mset [3, 7] = mset (label ex_R) \<and>
   (\<exists>B. permute ex_R [3, 7] 2 = Inr B \<and>
        frobenius_norm (arr B) = frobenius_norm (arr ex_R) \<and>
        elemNum (arr B) = elemNum (arr ex_R))"
proof -
  have h1: "wf_NPTensor ex_R"
    by (simp add: wf_NPTensor_def ex_R_def upt_rec AList.update.simps)
  have h2: "distinct (label ex_R)" by (simp add: ex_R_def)
  have h3: "mset [3, 7] = mset (label ex_R)" by (simp add: ex_R_def)
  show ?thesis using h1 h2 h3 permute_norm[OF h1 h2 h3, of 2] by simp
qed

subsection \<open>Flat indices\<close>

lemma flat_index_less: "i < n \<Longrightarrow> j < m \<Longrightarrow> i * m + j < n * (m::nat)"
proof -
  assume i: "i < n" and j: "j < m"
  have "Suc i * m \<le> n * m" using i by (intro mult_le_mono1) simp
  then show ?thesis using j by simp
qed

lemma length_concat_uniform:
  "\<forall>k<n. length (f k) = m \<Longrightarrow> length (concat (map f [0..<n])) = n * m"
  by (induction n) auto

lemma nth_concat_uniform:
  "\<forall>k<n. length (f k) = m \<Longrightarrow> i < n \<Longrightarrow> j < m \<Longrightarrow>
   concat (map f [0..<n]) ! (i * m + j) = f i ! j"
proof (induction n)
  case 0
  then show ?case by simp
next
  case (Suc n)
  have len: "length (concat (map f [0..<n])) = n * m"
    using Suc.prems(1) by (intro length_concat_uniform) simp
  show ?case
  proof (cases "i < n")
    case True
    then have "i * m + j < n * m" using Suc.prems(3) by (rule flat_index_less)
    then show ?thesis using Suc True len by (simp add: nth_append)
  next
    case False
    then have "i = n" using Suc.prems(2) by simp
    then show ?thesis using len by (simp add: nth_append)
  qed
qed

lemma offset_of_Cons: "offset_of (s # st) (i # idx) = i * s + offset_of st idx"
  by (simp add: offset_of_def)

lemma offset_of_Nil: "offset_of [] [] = 0"
  by (simp add: offset_of_def)

lemma offset_of_append:
  "length x1 = length st1 \<Longrightarrow>
   offset_of (st1 @ st2) (x1 @ x2) = offset_of st1 x1 + offset_of st2 x2"
  by (simp add: offset_of_def)

lemma offset_of_scaled:
  "offset_of (map (\<lambda>s. s * c) st) idx = offset_of st idx * c"
proof (induction st arbitrary: idx)
  case Nil
  then show ?case by (simp add: offset_of_def)
next
  case (Cons s st)
  show ?case
  proof (cases idx)
    case Nil
    then show ?thesis by (simp add: offset_of_def)
  next
    case (Cons i js)
    then show ?thesis using Cons.IH[of js] by (simp add: offset_of_Cons algebra_simps)
  qed
qed

lemma c_strides_append:
  "c_strides (s1 @ s2) = map (\<lambda>s. s * prod_list s2) (c_strides s1) @ c_strides s2"
  by (induction s1) auto

lemma length_c_strides: "length (c_strides s) = length s"
  by (induction s) auto

lemma indices_flat:
  "list_all2 (<) idx s \<Longrightarrow>
   offset_of (c_strides s) idx < prod_list s \<and> indices s ! offset_of (c_strides s) idx = idx"
proof (induction s arbitrary: idx)
  case Nil
  then show ?case by (simp add: offset_of_def)
next
  case (Cons d ds)
  then obtain i js where idx: "idx = i # js" "i < d" "list_all2 (<) js ds"
    by (auto simp: list_all2_Cons2)
  define j where "j = offset_of (c_strides ds) js"
  from Cons.IH[OF idx(3)] have j: "j < prod_list ds" "indices ds ! j = js"
    by (simp_all add: j_def)
  have off: "offset_of (c_strides (d # ds)) idx = i * prod_list ds + j"
    by (simp add: idx offset_of_Cons j_def)
  have lt: "i * prod_list ds + j < d * prod_list ds"
    using idx(2) j(1) by (rule flat_index_less)
  have "concat (map (\<lambda>i. map ((#) i) (indices ds)) [0..<d]) ! (i * prod_list ds + j)
        = map ((#) i) (indices ds) ! j"
    by (rule nth_concat_uniform) (use idx(2) j(1) in \<open>simp_all add: length_indices\<close>)
  also have "\<dots> = i # js" using j by (simp add: length_indices)
  finally show ?case using off lt idx(1) by simp
qed

lemma ravel_flat:
  "list_all2 (<) idx (shape a) \<Longrightarrow>
   ravel a ! offset_of (c_strides (shape a)) idx = item a idx"
  using indices_flat[of idx "shape a"] by (simp add: ravel_def length_indices)

lemma np_dot_outer:
  "i < n1 \<Longrightarrow> j < m \<Longrightarrow> np_dot n1 1 m x y ! (i * m + j) = x ! i * y ! j"
proof -
  assume i: "i < n1" and j: "j < m"
  have "np_dot n1 1 m x y ! (i * m + j) =
        map (\<lambda>j. \<Sum>k \<leftarrow> [0..<1]. x ! (i * 1 + k) * y ! (k * m + j)) [0..<m] ! j"
    unfolding np_dot_def by (rule nth_concat_uniform) (use i j in simp_all)
  then show ?thesis using j by simp
qed

subsection \<open>contractNPT on tensors without a common label\<close>

lemma np_transpose_id:
  assumes "length (strides a) = length (shape a)"
  shows "np_transpose [0..<length (shape a)] a = Inr a"
proof -
  have "map ((!) (shape a)) [0..<length (shape a)] = shape a" by (rule map_nth)
  moreover have "map ((!) (strides a)) [0..<length (shape a)] = strides a"
    using assms by (metis map_nth)
  ultimately show ?thesis by (simp add: np_transpose_def)
qed

lemma np_tensordot_outer:
  assumes "length (strides a) = length (shape a)" "length (strides b) = length (shape b)"
  shows "np_tensordot a b [] [] =
         Inr \<lparr>shape = shape a @ shape b, strides = c_strides (shape a @ shape b),
              buf = np_dot (prod_list (shape a)) 1 (prod_list (shape b)) (ravel a) (ravel b)\<rparr>"
  using np_transpose_id[OF assms(1)] np_transpose_id[OF assms(2)]
  by (simp add: np_tensordot_def map_nth Let_def)

lemma NPTensor_new_NDA:
  "NPTensor_new (NDA nd) =
     Inr \<lparr>arr = nd, label = map int [0..<length (shape nd)], bn = length (shape nd),
          ibn = int (length (shape nd)),
          lbmap = fold (\<lambda>i. AList.update (map int [0..<length (shape nd)] ! i) i)
                    [0..<length (shape nd)] []\<rparr>"
  using mapLabelBond_loop_fold[of "[0..<length (shape nd)]" "map int [0..<length (shape nd)]" "[]"]
  by (simp add: mapLabelBond_def)

lemma map_err_Inr: "map_err id (map Inr ys) = Inr ys"
  by (induction ys) auto

lemma py_get_range:
  assumes "0 \<le> a" "b \<le> int (length xs)"
  shows "map (py_get xs) (xrange a b) = map Inr (take (nat (b - a)) (drop (nat a) xs))"
proof (rule nth_equalityI)
  show "length (map (py_get xs) (xrange a b)) =
        length (map Inr (take (nat (b - a)) (drop (nat a) xs)))"
    using assms by (auto simp: xrange_def)
next
  fix k assume "k < length (map (py_get xs) (xrange a b))"
  then have k: "int k < b - a" by (auto simp: xrange_def)
  then have "[a..b - 1] ! k = a + int k" by (intro nth_upto) simp
  moreover have "nat (a + int k) = nat a + k" using assms(1) by simp
  ultimately show "map (py_get xs) (xrange a b) ! k =
                   map Inr (take (nat (b - a)) (drop (nat a) xs)) ! k"
    using k assms by (simp add: xrange_def py_get_def)
qed

lemma lab_ot_of_valid:
  assumes "valid_NPTensor t1" "valid_NPTensor t2"
  shows "lab_ot_of t1 t2 =
         Inr (take (nat (ibn t1)) (label t1) @ take (nat (ibn t2)) (label t2) @
              drop (nat (ibn t1)) (label t1) @ drop (nat (ibn t2)) (label t2))"
proof -
  have l1: "length (label t1) = bn t1" and l2: "length (label t2) = bn t2"
    and i1: "0 \<le> ibn t1" "ibn t1 \<le> int (bn t1)" and i2: "0 \<le> ibn t2" "ibn t2 \<le> int (bn t2)"
    using assms by (auto simp: valid_NPTensor_def wf_NPTensor_def)
  have a: "map (py_get (label t1)) (xrange 0 (ibn t1)) = map Inr (take (nat (ibn t1)) (label t1))"
    using py_get_range[of 0 "ibn t1" "label t1"] i1 l1 by simp
  have b: "map (py_get (label t2)) (xrange 0 (ibn t2)) = map Inr (take (nat (ibn t2)) (label t2))"
    using py_get_range[of 0 "ibn t2" "label t2"] i2 l2 by simp
  have c: "map (py_get (label t1)) (xrange (ibn t1) (int (bn t1))) =
           map Inr (drop (nat (ibn t1)) (label t1))"
    using py_get_range[of "ibn t1" "int (bn t1)" "label t1"] i1 l1 by simp
  have d: "map (py_get (label t2)) (xrange (ibn t2) (int (bn t2))) =
           map Inr (drop (nat (ibn t2)) (label t2))"
    using py_get_range[of "ibn t2" "int (bn t2)" "label t2"] i2 l2 by simp
  show ?thesis
    unfolding lab_ot_of_def a b c d map_append[symmetric] by (rule map_err_Inr)
qed

lemma map_pos_labels:
  assumes "\<And>i. i < length l \<Longrightarrow> p (l ! i) = off + i"
  shows "map (\<lambda>x. f (p x)) l = map f [off..<off + length l]"
  by (rule nth_equalityI) (use assms in auto)

lemma map_nth_append1: "map ((!) (xs @ ys)) [0..<length xs] = xs"
  by (rule nth_equalityI) (auto simp: nth_append)

lemma map_nth_append2: "map ((!) (xs @ ys)) [length xs..<length xs + length ys] = ys"
  by (rule nth_equalityI) (auto simp: nth_append)

lemma map_quarters:
  "map g (take i1 l1 @ take i2 l2 @ drop i1 l1 @ drop i2 l2) =
   take i1 (map g l1) @ take i2 (map g l2) @ drop i1 (map g l1) @ drop i2 (map g l2)"
  by (simp add: take_map drop_map)

lemma mset_quarters:
  "mset (take i1 l1 @ take i2 l2 @ drop i1 l1 @ drop i2 l2) = mset (l1 @ l2)"
proof -
  have "mset (take i1 l1) + mset (drop i1 l1) = mset l1"
    by (metis append_take_drop_id mset_append)
  moreover have "mset (take i2 l2) + mset (drop i2 l2) = mset l2"
    by (metis append_take_drop_id mset_append)
  ultimately show ?thesis by (simp add: ac_simps)
qed

lemma contractNPT_disjoint_result:
  fixes t1 t2 :: "'a::semiring_0 NPTensor"
  assumes v1: "valid_NPTensor t1" and v2: "valid_NPTensor t2"
    and dj: "set (label t1) \<inter> set (label t2) = {}"
  shows "\<exists>r. contractNPT t1 t2 = Inr r \<and>
             label r = take (nat (ibn t1)) (label t1) @ take (nat (ibn t2)) (label t2) @
                       drop (nat (ibn t1)) (label t1) @ drop (nat (ibn t2)) (label t2) \<and>
             ibn r = ibn t1 + ibn t2 \<and> bn r = bn t1 + bn t2 \<and>
             shape (arr r) =
               take (nat (ibn t1)) (shape (arr t1)) @ take (nat (ibn t2)) (shape (arr t2)) @
               drop (nat (ibn t1)) (shape (arr t1)) @ drop (nat (ibn t2)) (shape (arr t2)) \<and>
             strides (arr r) =
               take (nat (ibn t1)) (map (\<lambda>s. s * prod_list (shape (arr t2))) (c_strides (shape (arr t1)))) @
               take (nat (ibn t2)) (c_strides (shape (arr t2))) @
               drop (nat (ibn t1)) (map (\<lambda>s. s * prod_list (shape (arr t2))) (c_strides (shape (arr t1)))) @
               drop (nat (ibn t2)) (c_strides (shape (arr t2))) \<and>
             buf (arr r) = np_dot (prod_list (shape (arr t1))) 1 (prod_list (shape (arr t2)))
                             (ravel (arr t1)) (ravel (arr t2))"
proof -
  define l1 where "l1 = label t1"
  define l2 where "l2 = label t2"
  define s1 where "s1 = shape (arr t1)"
  define s2 where "s2 = shape (arr t2)"
  define i1 where "i1 = nat (ibn t1)"
  define i2 where "i2 = nat (ibn t2)"
  define lab_ot where "lab_ot = take i1 l1 @ take i2 l2 @ drop i1 l1 @ drop i2 l2"
  define nd where "nd = \<lparr>shape = s1 @ s2, strides = c_strides (s1 @ s2),
              buf = np_dot (prod_list s1) 1 (prod_list s2) (ravel (arr t1)) (ravel (arr t2))\<rparr>"
  define n where "n = length s1 + length s2"
  define npt' where "npt' = \<lparr>arr = nd, label = l1 @ l2, bn = n, ibn = int n,
              lbmap = fold (\<lambda>i. AList.update ((l1 @ l2) ! i) i) [0..<n] []\<rparr>"
  have w1: "length (strides (arr t1)) = length s1" "bn t1 = length s1" "length l1 = length s1"
    and d1: "distinct l1" and r1: "0 \<le> ibn t1" "ibn t1 \<le> int (bn t1)"
    using v1 by (auto simp: valid_NPTensor_def wf_NPTensor_def l1_def s1_def)
  have w2: "length (strides (arr t2)) = length s2" "bn t2 = length s2" "length l2 = length s2"
    and d2: "distinct l2" and r2: "0 \<le> ibn t2" "ibn t2 \<le> int (bn t2)"
    using v2 by (auto simp: valid_NPTensor_def wf_NPTensor_def l2_def s2_def)
  have lc: "lab_common_of l1 l2 = []"
    using dj by (auto simp: lab_common_of_def l1_def l2_def filter_empty_conv)
  have td: "np_tensordot (arr t1) (arr t2) [] [] = Inr nd"
    using np_tensordot_outer[of "arr t1" "arr t2"] w1(1) w2(1) by (simp add: nd_def s1_def s2_def)
  have shn: "length (shape nd) = n" by (simp add: nd_def n_def)
  have new: "NPTensor_new (NDA nd) =
     Inr \<lparr>arr = nd, label = map int [0..<n], bn = n, ibn = int n,
          lbmap = fold (\<lambda>i. AList.update (map int [0..<n] ! i) i) [0..<n] []\<rparr>"
    using NPTensor_new_NDA[of nd] by (simp add: shn)
  have ll: "length (l1 @ l2) = n" using w1 w2 by (simp add: n_def)
  have sl: "setLabel \<lparr>arr = nd, label = map int [0..<n], bn = n, ibn = int n,
          lbmap = fold (\<lambda>i. AList.update (map int [0..<n] ! i) i) [0..<n] []\<rparr> (l1 @ l2) =
          Inr npt'"
    by (subst setLabel_unfold) (use shn ll in \<open>simp_all add: npt'_def\<close>)
  have wf': "wf_NPTensor npt'"
    using mapLabelBond_loop_fold[of "[0..<n]" "l1 @ l2" "[]"] ll shn
    by (simp add: wf_NPTensor_def npt'_def nd_def length_c_strides)
  have d': "distinct (label npt')" using d1 d2 dj by (simp add: npt'_def l1_def l2_def)
  have p: "mset lab_ot = mset (label npt')"
    by (simp only: lab_ot_def mset_quarters) (simp add: npt'_def)
  have lo: "lab_ot_of t1 t2 = Inr lab_ot"
    using lab_ot_of_valid[OF v1 v2] by (simp add: lab_ot_def l1_def l2_def i1_def i2_def)
  have k: "0 \<le> ibn t1 + ibn t2" using r1 r2 by simp
  have con: "contractNPT t1 t2 = permute npt' lab_ot (ibn t1 + ibn t2)"
    using lc td new sl lo
    by (simp add: contractNPT_def Let_def l1_def[symmetric] l2_def[symmetric])
  have pos1: "\<And>i. i < length l1 \<Longrightarrow> pos_of npt' (l1 ! i) = 0 + i"
  proof -
    fix i assume i: "i < length l1"
    then have "i < bn npt'" using ll by (simp add: npt'_def)
    from wf_pos_of[OF wf' d' this] i show "pos_of npt' (l1 ! i) = 0 + i"
      by (simp add: pos_of_def npt'_def nth_append)
  qed
  have pos2: "\<And>i. i < length l2 \<Longrightarrow> pos_of npt' (l2 ! i) = length l1 + i"
  proof -
    fix i assume i: "i < length l2"
    then have "length l1 + i < bn npt'" using ll by (simp add: npt'_def)
    from wf_pos_of[OF wf' d' this] show "pos_of npt' (l2 ! i) = length l1 + i"
      by (simp add: npt'_def pos_of_def)
  qed
  have m1: "\<And>f :: nat \<Rightarrow> nat. map (\<lambda>x. f (pos_of npt' x)) l1 = map f [0..<length s1]"
    using map_pos_labels[of l1 "pos_of npt'" 0, OF pos1] w1 by simp
  have m2: "\<And>f :: nat \<Rightarrow> nat. map (\<lambda>x. f (pos_of npt' x)) l2 = map f [length s1..<length s1 + length s2]"
    using map_pos_labels[of l2 "pos_of npt'" "length l1", OF pos2] w1 w2 by simp
  have sh1: "map (\<lambda>x. shape (arr npt') ! pos_of npt' x) l1 = s1"
    using m1[of "(!) (s1 @ s2)"] by (simp add: npt'_def nd_def map_nth_append1)
  have sh2: "map (\<lambda>x. shape (arr npt') ! pos_of npt' x) l2 = s2"
    using m2[of "(!) (s1 @ s2)"] by (simp add: npt'_def nd_def map_nth_append2)
  define S1 where "S1 = map (\<lambda>s. s * prod_list s2) (c_strides s1)"
  have st: "strides (arr npt') = S1 @ c_strides s2"
    by (simp add: npt'_def nd_def c_strides_append S1_def)
  have lS1: "length S1 = length s1" by (simp add: S1_def length_c_strides)
  have st1: "map (\<lambda>x. strides (arr npt') ! pos_of npt' x) l1 = S1"
    using m1[of "(!) (S1 @ c_strides s2)"] map_nth_append1[of S1 "c_strides s2"]
    by (simp add: st lS1)
  have st2: "map (\<lambda>x. strides (arr npt') ! pos_of npt' x) l2 = c_strides s2"
    using m2[of "(!) (S1 @ c_strides s2)"] map_nth_append2[of S1 "c_strides s2"]
    by (simp add: st lS1 length_c_strides)
  have bn': "bn npt' = bn t1 + bn t2" using w1 w2 by (simp add: npt'_def n_def)
  have shr: "map (\<lambda>x. shape (arr npt') ! pos_of npt' x) lab_ot =
             take i1 s1 @ take i2 s2 @ drop i1 s1 @ drop i2 s2"
    unfolding lab_ot_def map_quarters sh1 sh2 ..
  have str: "map (\<lambda>x. strides (arr npt') ! pos_of npt' x) lab_ot =
             take i1 S1 @ take i2 (c_strides s2) @ drop i1 S1 @ drop i2 (c_strides s2)"
    unfolding lab_ot_def map_quarters st1 st2 ..
  have bf: "buf (arr npt') = np_dot (prod_list s1) 1 (prod_list s2) (ravel (arr t1)) (ravel (arr t2))"
    by (simp add: npt'_def nd_def)
  have "contractNPT t1 t2 =
        Inr \<lparr>arr = \<lparr>shape = take i1 s1 @ take i2 s2 @ drop i1 s1 @ drop i2 s2,
                    strides = take i1 S1 @ take i2 (c_strides s2) @ drop i1 S1 @ drop i2 (c_strides s2),
                    buf = np_dot (prod_list s1) 1 (prod_list s2) (ravel (arr t1)) (ravel (arr t2))\<rparr>,
             label = lab_ot, bn = bn t1 + bn t2, ibn = ibn t1 + ibn t2,
             lbmap = fold (\<lambda>i. AList.update (lab_ot ! i) i) [0..<bn npt'] []\<rparr>"
    unfolding con permute_result[OF wf' d' p] shr str bf bn' using k by simp
  then show ?thesis
    by (simp add: lab_ot_def l1_def l2_def s1_def s2_def i1_def i2_def S1_def)
qed

lemma offset_of_quarters:
  assumes "length a1 = i1" "length a2 = i2" "i1 \<le> length S1" "i2 \<le> length S2"
    "length (a1 @ b1) = length S1"
  shows "offset_of (take i1 S1 @ take i2 S2 @ drop i1 S1 @ drop i2 S2) (a1 @ a2 @ b1 @ b2) =
         offset_of S1 (a1 @ b1) + offset_of S2 (a2 @ b2)"
proof -
  have "offset_of (take i1 S1 @ take i2 S2 @ drop i1 S1 @ drop i2 S2) (a1 @ a2 @ b1 @ b2) =
        offset_of (take i1 S1) a1 + (offset_of (take i2 S2) a2 +
          (offset_of (drop i1 S1) b1 + offset_of (drop i2 S2) b2))"
    using assms by (simp add: offset_of_append)
  moreover have "offset_of (take i1 S1 @ drop i1 S1) (a1 @ b1) =
                 offset_of (take i1 S1) a1 + offset_of (drop i1 S1) b1"
    using assms by (intro offset_of_append) simp
  moreover have "offset_of (take i2 S2 @ drop i2 S2) (a2 @ b2) =
                 offset_of (take i2 S2) a2 + offset_of (drop i2 S2) b2"
    using assms by (intro offset_of_append) simp
  ultimately show ?thesis by simp
qed

lemma ex_A_valid: "valid_NPTensor ex_A"
  using ex_A_wf by (simp add: valid_NPTensor_def) (simp add: ex_A_def)

lemma ex_C_valid: "valid_NPTensor ex_C"
  by (simp add: valid_NPTensor_def wf_NPTensor_def ex_C_def AList.update.simps)

text \<open>
  Claim C10. For every pair of well-formed NPTensors \<open>t1\<close>, \<open>t2\<close> with disjoint label
  sets, \<open>contractNPT(t1, t2)\<close> succeeds and returns their outer product, permuted: the
  labels of the result are, in order, \<open>t1\<close>'s IN labels, \<open>t2\<close>'s IN labels, \<open>t1\<close>'s OUT
  labels, \<open>t2\<close>'s OUT labels (and its shape the dimensions in the same order), its
  \<open>ibn\<close> is \<open>t1.ibn + t2.ibn\<close>, and its element at an index \<open>a1, a2, b1, b2\<close> (split
  the same way) is the product of \<open>t1\<close>'s element at \<open>a1, b1\<close> and \<open>t2\<close>'s at \<open>a2, b2\<close>.
\<close>

theorem contractNPT_outer_product:
  fixes t1 t2 :: "'a::semiring_0 NPTensor"
  assumes v1: "valid_NPTensor t1" and v2: "valid_NPTensor t2"
    and dj: "set (label t1) \<inter> set (label t2) = {}"
  shows "\<exists>r. contractNPT t1 t2 = Inr r \<and>
             label r = take (nat (ibn t1)) (label t1) @ take (nat (ibn t2)) (label t2) @
                       drop (nat (ibn t1)) (label t1) @ drop (nat (ibn t2)) (label t2) \<and>
             ibn r = ibn t1 + ibn t2 \<and>
             shape (arr r) =
               take (nat (ibn t1)) (shape (arr t1)) @ take (nat (ibn t2)) (shape (arr t2)) @
               drop (nat (ibn t1)) (shape (arr t1)) @ drop (nat (ibn t2)) (shape (arr t2)) \<and>
             (\<forall>a1 a2 b1 b2.
                length a1 = nat (ibn t1) \<and> length a2 = nat (ibn t2) \<and>
                list_all2 (<) (a1 @ b1) (shape (arr t1)) \<and>
                list_all2 (<) (a2 @ b2) (shape (arr t2)) \<longrightarrow>
                item (arr r) (a1 @ a2 @ b1 @ b2) =
                  item (arr t1) (a1 @ b1) * item (arr t2) (a2 @ b2))"
proof -
  define s1 where "s1 = shape (arr t1)"
  define s2 where "s2 = shape (arr t2)"
  define i1 where "i1 = nat (ibn t1)"
  define i2 where "i2 = nat (ibn t2)"
  define S1 where "S1 = map (\<lambda>s. s * prod_list s2) (c_strides s1)"
  define S2 where "S2 = c_strides s2"
  from contractNPT_disjoint_result[OF v1 v2 dj] obtain r where
    r: "contractNPT t1 t2 = Inr r"
    and lr: "label r = take (nat (ibn t1)) (label t1) @ take (nat (ibn t2)) (label t2) @
                       drop (nat (ibn t1)) (label t1) @ drop (nat (ibn t2)) (label t2)"
    and ir: "ibn r = ibn t1 + ibn t2"
    and shr: "shape (arr r) = take i1 s1 @ take i2 s2 @ drop i1 s1 @ drop i2 s2"
    and str: "strides (arr r) = take i1 S1 @ take i2 S2 @ drop i1 S1 @ drop i2 S2"
    and bfr: "buf (arr r) = np_dot (prod_list s1) 1 (prod_list s2) (ravel (arr t1)) (ravel (arr t2))"
    unfolding s1_def s2_def i1_def i2_def S1_def S2_def by blast
  have b1: "i1 \<le> length s1" and b2: "i2 \<le> length s2"
    using v1 v2 by (auto simp: valid_NPTensor_def wf_NPTensor_def i1_def i2_def s1_def s2_def)
  have lS: "length S1 = length s1" "length S2 = length s2"
    by (simp_all add: S1_def S2_def length_c_strides)
  have el: "item (arr r) (a1 @ a2 @ b1 @ b2) = item (arr t1) (a1 @ b1) * item (arr t2) (a2 @ b2)"
    if h: "length a1 = i1" "length a2 = i2" "list_all2 (<) (a1 @ b1) s1"
      "list_all2 (<) (a2 @ b2) s2" for a1 a2 b1 b2
  proof -
    define x where "x = offset_of (c_strides s1) (a1 @ b1)"
    define y where "y = offset_of (c_strides s2) (a2 @ b2)"
    have l1: "length (a1 @ b1) = length S1" using list_all2_lengthD[OF h(3)] lS by simp
    have "offset_of (strides (arr r)) (a1 @ a2 @ b1 @ b2) =
          offset_of S1 (a1 @ b1) + offset_of S2 (a2 @ b2)"
      unfolding str using h(1,2) b1 b2 lS l1 by (intro offset_of_quarters) simp_all
    also have "\<dots> = x * prod_list s2 + y"
      by (simp add: S1_def S2_def offset_of_scaled x_def y_def)
    finally have off: "offset_of (strides (arr r)) (a1 @ a2 @ b1 @ b2) = x * prod_list s2 + y" .
    have x: "x < prod_list s1" "ravel (arr t1) ! x = item (arr t1) (a1 @ b1)"
      using indices_flat[OF h(3)] ravel_flat[of "a1 @ b1" "arr t1"] h(3)
      by (simp_all add: x_def s1_def)
    have y: "y < prod_list s2" "ravel (arr t2) ! y = item (arr t2) (a2 @ b2)"
      using indices_flat[OF h(4)] ravel_flat[of "a2 @ b2" "arr t2"] h(4)
      by (simp_all add: y_def s2_def)
    show ?thesis
      using np_dot_outer[OF x(1) y(1), of "ravel (arr t1)" "ravel (arr t2)"] x(2) y(2)
      by (simp add: item_def off bfr)
  qed
  show ?thesis
    using r lr ir shr el by (auto simp: s1_def s2_def i1_def i2_def)
qed

text \<open>The 2 x 3 example times the vector: labels 7, 5, 3 and two incoming bonds.\<close>

theorem contractNPT_outer_product_witness:
  "valid_NPTensor ex_A \<and> valid_NPTensor ex_C \<and> set (label ex_A) \<inter> set (label ex_C) = {} \<and>
   (\<exists>r. contractNPT ex_A ex_C = Inr r \<and> label r = [7, 5, 3] \<and> ibn r = 2 \<and>
        shape (arr r) = [2, 2, 3] \<and>
        item (arr r) [1, 0, 2] = item (arr ex_A) [1, 2] * item (arr ex_C) [0])"
proof -
  have h3: "set (label ex_A) \<inter> set (label ex_C) = {}" by (simp add: ex_A_def ex_C_def)
  from contractNPT_outer_product[OF ex_A_valid ex_C_valid h3] obtain r where
    r: "contractNPT ex_A ex_C = Inr r"
      "label r = take (nat (ibn ex_A)) (label ex_A) @ take (nat (ibn ex_C)) (label ex_C) @
                 drop (nat (ibn ex_A)) (label ex_A) @ drop (nat (ibn ex_C)) (label ex_C)"
      "ibn r = ibn ex_A + ibn ex_C"
      "shape (arr r) =
         take (nat (ibn ex_A)) (shape (arr ex_A)) @ take (nat (ibn ex_C)) (shape (arr ex_C)) @
         drop (nat (ibn ex_A)) (shape (arr ex_A)) @ drop (nat (ibn ex_C)) (shape (arr ex_C))"
      "\<forall>a1 a2 b1 b2.
         length a1 = nat (ibn ex_A) \<and> length a2 = nat (ibn ex_C) \<and>
         list_all2 (<) (a1 @ b1) (shape (arr ex_A)) \<and>
         list_all2 (<) (a2 @ b2) (shape (arr ex_C)) \<longrightarrow>
         item (arr r) (a1 @ a2 @ b1 @ b2) = item (arr ex_A) (a1 @ b1) * item (arr ex_C) (a2 @ b2)"
    by blast
  from r(5) have "length [1::nat] = nat (ibn ex_A) \<and> length [0::nat] = nat (ibn ex_C) \<and>
         list_all2 (<) ([1] @ [2]) (shape (arr ex_A)) \<and>
         list_all2 (<) ([0] @ []) (shape (arr ex_C)) \<longrightarrow>
         item (arr r) ([1] @ [0] @ [2] @ []) = item (arr ex_A) ([1] @ [2]) * item (arr ex_C) ([0] @ [])"
    by blast
  then have "item (arr r) [1, 0, 2] = item (arr ex_A) [1, 2] * item (arr ex_C) [0]"
    by (simp add: ex_A_def ex_C_def)
  with r(1-4) ex_A_valid ex_C_valid h3 show ?thesis
    by (simp add: ex_A_def ex_C_def)
qed

subsection \<open>contractNPT on tensors with common labels\<close>

lemma valid_pos:
  assumes v: "valid_NPTensor t" and x: "x \<in> set (label t)"
  shows "pos_of t x < bn t" "label t ! pos_of t x = x" "map_of (lbmap t) x = Some (pos_of t x)"
proof -
  from v have wf: "wf_NPTensor t" and d: "distinct (label t)" and l: "length (label t) = bn t"
    by (auto simp: valid_NPTensor_def wf_NPTensor_def)
  from x obtain i where i: "i < bn t" "label t ! i = x" using l by (metis in_set_conv_nth)
  from wf_pos_of[OF wf d i(1)] i(2) have "map_of (lbmap t) x = Some i" by simp
  then have "pos_of t x = i" by (simp add: pos_of_def)
  with i \<open>map_of (lbmap t) x = Some i\<close>
  show "pos_of t x < bn t" "label t ! pos_of t x = x" "map_of (lbmap t) x = Some (pos_of t x)"
    by simp_all
qed

lemma valid_pos_inj:
  assumes v: "valid_NPTensor t"
  shows "inj_on (pos_of t) (set (label t))"
proof (rule inj_onI)
  fix x y assume "x \<in> set (label t)" "y \<in> set (label t)" "pos_of t x = pos_of t y"
  then show "x = y" using valid_pos(2)[OF v] by metis
qed

lemma map_err_dict_get:
  "\<forall>x \<in> set xs. map_of m x \<noteq> None \<Longrightarrow>
   map_err (dict_get m) xs = Inr (map (\<lambda>x. the (map_of m x)) xs)"
  by (induction xs) (auto simp: dict_get_def)

lemma set_lab_common: "set (lab_common_of l1 l2) = set l1 \<inter> set l2"
  by (auto simp: lab_common_of_def)

lemma distinct_lab_common: "distinct (lab_common_of l1 l2)"
  by (simp add: lab_common_of_def)

text \<open>The axes that are summed and the axes that stay.\<close>

lemma free_axes_perm:
  assumes "distinct axs" "\<forall>k \<in> set axs. k < n"
  shows "length (filter (\<lambda>k. k \<notin> set axs) [0..<n]) + length axs = n"
    "distinct (filter (\<lambda>k. k \<notin> set axs) [0..<n] @ axs)"
    "distinct (axs @ filter (\<lambda>k. k \<notin> set axs) [0..<n])"
proof -
  let ?free = "filter (\<lambda>k. k \<notin> set axs) [0..<n]"
  show d1: "distinct (?free @ axs)" using assms(1) by auto
  show "distinct (axs @ ?free)" using assms(1) by auto
  have "set (?free @ axs) = {0..<n}" using assms(2) by auto
  then have "card (set (?free @ axs)) = n" by simp
  then have "length (?free @ axs) = n" using distinct_card[OF d1] by simp
  then show "length ?free + length axs = n" by simp
qed

lemma kept_labels_length:
  assumes "distinct l" "distinct lc" "set lc \<subseteq> set l"
  shows "length (filter (\<lambda>x. x \<notin> set lc) l) + length lc = length l"
proof -
  have "length (filter (\<lambda>x. x \<in> set lc) l) = card ({x. x \<in> set lc} \<inter> set l)"
    by (rule distinct_length_filter[OF assms(1)])
  also have "{x. x \<in> set lc} \<inter> set l = set lc" using assms(3) by auto
  also have "card (set lc) = length lc" by (rule distinct_card[OF assms(2)])
  finally have "length (filter (\<lambda>x. x \<in> set lc) l) = length lc" .
  moreover have "length (filter (\<lambda>x. x \<in> set lc) l) + length (filter (\<lambda>x. \<not> x \<in> set lc) l) = length l"
    by (rule sum_length_filter_compl)
  ultimately show ?thesis by simp
qed

lemma np_tensordot_mismatch:
  assumes "\<forall>k \<in> set axa. k < length (shape a)" "\<forall>k \<in> set axb. k < length (shape b)"
    and "map ((!) (shape a)) axa \<noteq> map ((!) (shape b)) axb"
  shows "np_tensordot a b axa axb = Inl ValueError"
proof -
  have "\<not> ((\<exists>k \<in> set axa. length (shape a) \<le> k) \<or> (\<exists>k \<in> set axb. length (shape b) \<le> k))"
    using assms(1,2) by (auto simp: not_le)
  then show ?thesis using assms(3) by (simp add: np_tensordot_def)
qed

lemma np_transpose_ok:
  "length axes = length (shape a) \<Longrightarrow> distinct axes \<Longrightarrow> \<forall>k \<in> set axes. k < length (shape a) \<Longrightarrow>
   np_transpose axes a =
     Inr \<lparr>shape = map ((!) (shape a)) axes, strides = map ((!) (strides a)) axes, buf = buf a\<rparr>"
  by (simp add: np_transpose_def)

lemma np_tensordot_match:
  assumes ra: "\<forall>k \<in> set axa. k < length (shape a)" and rb: "\<forall>k \<in> set axb. k < length (shape b)"
    and l: "length axa = length axb"
    and e: "map ((!) (shape a)) axa = map ((!) (shape b)) axb"
    and da: "distinct axa" and db: "distinct axb"
  shows "\<exists>nd. np_tensordot a b axa axb = Inr nd \<and>
              shape nd = map ((!) (shape a)) (filter (\<lambda>k. k \<notin> set axa) [0..<length (shape a)]) @
                         map ((!) (shape b)) (filter (\<lambda>k. k \<notin> set axb) [0..<length (shape b)])"
proof -
  have g: "\<not> ((\<exists>k \<in> set axa. length (shape a) \<le> k) \<or> (\<exists>k \<in> set axb. length (shape b) \<le> k))"
    using ra rb by (auto simp: not_le)
  note fa = free_axes_perm[OF da ra]
  note fb = free_axes_perm[OF db rb]
  have ta: "np_transpose (filter (\<lambda>k. k \<notin> set axa) [0..<length (shape a)] @ axa) a =
            Inr \<lparr>shape = map ((!) (shape a)) (filter (\<lambda>k. k \<notin> set axa) [0..<length (shape a)] @ axa),
                 strides = map ((!) (strides a)) (filter (\<lambda>k. k \<notin> set axa) [0..<length (shape a)] @ axa),
                 buf = buf a\<rparr>"
  proof (rule np_transpose_ok)
    show "length (filter (\<lambda>k. k \<notin> set axa) [0..<length (shape a)] @ axa) = length (shape a)"
      using fa(1) by simp
    show "distinct (filter (\<lambda>k. k \<notin> set axa) [0..<length (shape a)] @ axa)" by (rule fa(2))
    show "\<forall>k \<in> set (filter (\<lambda>k. k \<notin> set axa) [0..<length (shape a)] @ axa). k < length (shape a)"
      using ra by auto
  qed
  have tb: "np_transpose (axb @ filter (\<lambda>k. k \<notin> set axb) [0..<length (shape b)]) b =
            Inr \<lparr>shape = map ((!) (shape b)) (axb @ filter (\<lambda>k. k \<notin> set axb) [0..<length (shape b)]),
                 strides = map ((!) (strides b)) (axb @ filter (\<lambda>k. k \<notin> set axb) [0..<length (shape b)]),
                 buf = buf b\<rparr>"
  proof (rule np_transpose_ok)
    show "length (axb @ filter (\<lambda>k. k \<notin> set axb) [0..<length (shape b)]) = length (shape b)"
      using fb(1) by simp
    show "distinct (axb @ filter (\<lambda>k. k \<notin> set axb) [0..<length (shape b)])" by (rule fb(3))
    show "\<forall>k \<in> set (axb @ filter (\<lambda>k. k \<notin> set axb) [0..<length (shape b)]). k < length (shape b)"
      using rb by auto
  qed
  show ?thesis
    unfolding np_tensordot_def Let_def ta tb using g l e by simp
qed

lemma contractNPT_unfold_shared:
  assumes "lab_common_of (label t1) (label t2) = lc" "lc \<noteq> []"
    "map_err (dict_get (lbmap t1)) lc = Inr idx1" "map_err (dict_get (lbmap t2)) lc = Inr idx2"
  shows "contractNPT t1 t2 =
         (case np_tensordot (arr t1) (arr t2) idx1 idx2 of
            Inl e \<Rightarrow> Inl e
          | Inr nd \<Rightarrow>
              (case NPTensor_new (NDA nd) of
                 Inl e \<Rightarrow> Inl e
               | Inr npt \<Rightarrow>
                   (case setLabel npt (filter (\<lambda>x. x \<notin> set lc) (label t1 @ label t2)) of
                      Inl e \<Rightarrow> Inl e
                    | Inr npt' \<Rightarrow>
                        Inr (npt'\<lparr>ibn := int (length (label t1)) - int (length lc)\<rparr>))))"
  unfolding contractNPT_def Let_def assms(1) using assms(2,3,4) by simp

lemma contractNPT_shared:
  fixes t1 t2 :: "'a::semiring_0 NPTensor"
  assumes v1: "valid_NPTensor t1" and v2: "valid_NPTensor t2"
    and ne: "set (label t1) \<inter> set (label t2) \<noteq> {}"
  shows "if \<forall>x \<in> set (label t1) \<inter> set (label t2).
              shape (arr t1) ! pos_of t1 x = shape (arr t2) ! pos_of t2 x
         then \<exists>r. contractNPT t1 t2 = Inr r \<and>
                  label r = filter (\<lambda>x. x \<notin> set (label t1) \<inter> set (label t2)) (label t1 @ label t2)
         else contractNPT t1 t2 = Inl ValueError"
proof -
  define l1 where "l1 = label t1"
  define l2 where "l2 = label t2"
  define s1 where "s1 = shape (arr t1)"
  define s2 where "s2 = shape (arr t2)"
  define lc where "lc = lab_common_of l1 l2"
  define idx1 where "idx1 = map (pos_of t1) lc"
  define idx2 where "idx2 = map (pos_of t2) lc"
  define free1 where "free1 = filter (\<lambda>k. k \<notin> set idx1) [0..<length s1]"
  define free2 where "free2 = filter (\<lambda>k. k \<notin> set idx2) [0..<length s2]"
  define lab_final where "lab_final = filter (\<lambda>x. x \<notin> set lc) (l1 @ l2)"
  have w1: "length (strides (arr t1)) = length s1" "bn t1 = length s1" "length l1 = length s1"
    and d1: "distinct l1"
    using v1 by (auto simp: valid_NPTensor_def wf_NPTensor_def l1_def s1_def)
  have w2: "length (strides (arr t2)) = length s2" "bn t2 = length s2" "length l2 = length s2"
    and d2: "distinct l2"
    using v2 by (auto simp: valid_NPTensor_def wf_NPTensor_def l2_def s2_def)
  have slc: "set lc = set l1 \<inter> set l2" and dlc: "distinct lc"
    by (simp_all add: lc_def set_lab_common distinct_lab_common)
  have ne': "lc \<noteq> []" using ne slc by (auto simp: l1_def l2_def)
  have lc': "lab_common_of (label t1) (label t2) = lc" by (simp add: lc_def l1_def l2_def)
  have g1: "map_err (dict_get (lbmap t1)) lc = Inr idx1"
  proof -
    have "\<forall>x \<in> set lc. map_of (lbmap t1) x \<noteq> None"
      using valid_pos(3)[OF v1] slc by (auto simp: l1_def)
    from map_err_dict_get[OF this] show ?thesis by (simp add: idx1_def pos_of_def)
  qed
  have g2: "map_err (dict_get (lbmap t2)) lc = Inr idx2"
  proof -
    have "\<forall>x \<in> set lc. map_of (lbmap t2) x \<noteq> None"
      using valid_pos(3)[OF v2] slc by (auto simp: l2_def)
    from map_err_dict_get[OF this] show ?thesis by (simp add: idx2_def pos_of_def)
  qed
  have r1: "\<forall>k \<in> set idx1. k < length s1"
    using valid_pos(1)[OF v1] slc w1 by (auto simp: idx1_def l1_def)
  have r2: "\<forall>k \<in> set idx2. k < length s2"
    using valid_pos(1)[OF v2] slc w2 by (auto simp: idx2_def l2_def)
  have di1: "distinct idx1"
    unfolding idx1_def using dlc slc valid_pos_inj[OF v1]
    by (auto simp: distinct_map l1_def intro: inj_on_subset)
  have di2: "distinct idx2"
    unfolding idx2_def using dlc slc valid_pos_inj[OF v2]
    by (auto simp: distinct_map l2_def intro: inj_on_subset)
  note f1 = free_axes_perm[OF di1 r1, folded free1_def]
  note f2 = free_axes_perm[OF di2 r2, folded free2_def]
  have li: "length idx1 = length lc" "length idx2 = length lc"
    by (simp_all add: idx1_def idx2_def)
  have dims: "map ((!) s1) idx1 = map ((!) s2) idx2 \<longleftrightarrow>
              (\<forall>x \<in> set l1 \<inter> set l2. s1 ! pos_of t1 x = s2 ! pos_of t2 x)"
    using slc by (simp add: idx1_def idx2_def)
  have con_lab: "lab_final = filter (\<lambda>x. x \<notin> set l1 \<inter> set l2) (l1 @ l2)"
    by (simp add: lab_final_def slc)
  show ?thesis
  proof (cases "\<forall>x \<in> set l1 \<inter> set l2. s1 ! pos_of t1 x = s2 ! pos_of t2 x")
    case False
    then have "map ((!) (shape (arr t1))) idx1 \<noteq> map ((!) (shape (arr t2))) idx2"
      using dims by (simp add: s1_def s2_def)
    then have "np_tensordot (arr t1) (arr t2) idx1 idx2 = Inl ValueError"
      using r1 r2 by (intro np_tensordot_mismatch) (simp_all add: s1_def s2_def)
    then have "contractNPT t1 t2 = Inl ValueError"
      unfolding contractNPT_unfold_shared[OF lc' ne' g1 g2] by simp
    with False show ?thesis by (simp add: l1_def l2_def s1_def s2_def)
  next
    case True
    have e: "map ((!) (shape (arr t1))) idx1 = map ((!) (shape (arr t2))) idx2"
      using dims True by (simp add: s1_def s2_def)
    have "\<exists>nd. np_tensordot (arr t1) (arr t2) idx1 idx2 = Inr nd \<and>
              shape nd = map ((!) (shape (arr t1))) (filter (\<lambda>k. k \<notin> set idx1) [0..<length (shape (arr t1))]) @
                         map ((!) (shape (arr t2))) (filter (\<lambda>k. k \<notin> set idx2) [0..<length (shape (arr t2))])"
      using r1 r2 li e di1 di2 by (intro np_tensordot_match) (simp_all add: s1_def s2_def)
    then obtain nd where nd: "np_tensordot (arr t1) (arr t2) idx1 idx2 = Inr nd"
      and shn: "shape nd = map ((!) s1) free1 @ map ((!) s2) free2"
      unfolding s1_def[symmetric] s2_def[symmetric] free1_def[symmetric] free2_def[symmetric]
      by blast
    have lf: "length lab_final = length (shape nd)"
    proof -
      have "length (filter (\<lambda>x. x \<notin> set lc) l1) + length lc = length l1"
        by (rule kept_labels_length[OF d1 dlc]) (simp add: slc)
      moreover have "length (filter (\<lambda>x. x \<notin> set lc) l2) + length lc = length l2"
        by (rule kept_labels_length[OF d2 dlc]) (simp add: slc)
      ultimately show ?thesis using f1(1) f2(1) li w1 w2 by (simp add: lab_final_def shn)
    qed
    define np0 where "np0 = \<lparr>arr = nd, label = map int [0..<length (shape nd)],
          bn = length (shape nd), ibn = int (length (shape nd)),
          lbmap = fold (\<lambda>i. AList.update (map int [0..<length (shape nd)] ! i) i)
                    [0..<length (shape nd)] []\<rparr>"
    have new: "NPTensor_new (NDA nd) = Inr np0"
      unfolding np0_def by (rule NPTensor_new_NDA)
    have bn0: "bn np0 = length (shape (arr np0))" by (simp add: np0_def)
    have lf0: "length lab_final = length (shape (arr np0))" using lf by (simp add: np0_def)
    have sl: "setLabel np0 (filter (\<lambda>x. x \<notin> set lc) (label t1 @ label t2)) =
              Inr (np0\<lparr>label := lab_final,
                       lbmap := fold (\<lambda>i. AList.update (lab_final ! i) i) [0..<bn np0] []\<rparr>)"
      unfolding l1_def[symmetric] l2_def[symmetric] lab_final_def[symmetric]
        setLabel_unfold[OF bn0] using lf0 by simp
    have "contractNPT t1 t2 =
          Inr (np0\<lparr>label := lab_final,
                   lbmap := fold (\<lambda>i. AList.update (lab_final ! i) i) [0..<bn np0] [],
                   ibn := int (length (label t1)) - int (length lc)\<rparr>)"
      unfolding contractNPT_unfold_shared[OF lc' ne' g1 g2]
      by (simp add: nd new sl del: NPTensor_new.simps filter_append)
    then have "\<exists>r. contractNPT t1 t2 = Inr r \<and> label r = lab_final" by simp
    with True con_lab show ?thesis by (simp add: l1_def l2_def s1_def s2_def)
  qed
qed

lemma filter_not_in_empty:
  "A = {} \<Longrightarrow> filter (\<lambda>x. x \<notin> A) xs = xs"
  by simp

lemma ex_V1_valid: "valid_NPTensor ex_V1"
  by (simp add: valid_NPTensor_def wf_NPTensor_def ex_V1_def AList.update.simps)

lemma ex_V2_valid: "valid_NPTensor ex_V2"
  by (simp add: valid_NPTensor_def wf_NPTensor_def ex_V2_def AList.update.simps)

lemma ex_V3_valid: "valid_NPTensor ex_V3"
  by (simp add: valid_NPTensor_def wf_NPTensor_def ex_V3_def AList.update.simps)

text \<open>
  Claim C3, as stated, asks \<open>contract\<close> to fail when a shared label names two bonds of
  the same direction. \<open>contractNPT\<close> does not look at directions: two vectors whose only
  bond is incoming and carries the same label are contracted to their scalar product.
\<close>

theorem contractNPT_same_direction_counterexample:
  "label ex_V1 = [0] \<and> label ex_V2 = [0] \<and>
   toUniTensor_bds ex_V1 = Inr [(BD_IN, 2)] \<and> toUniTensor_bds ex_V2 = Inr [(BD_IN, 2)] \<and>
   contractNPT ex_V1 ex_V2 =
     Inr \<lparr>arr = \<lparr>shape = [], strides = [], buf = [11]\<rparr>, label = [], bn = 0, ibn = 0,
          lbmap = []\<rparr>"
  by (simp add: ex_V1_def ex_V2_def toUniTensor_bds_def contractNPT_def lab_common_of_def
      dict_get_def np_tensordot_def np_transpose_def np_dot_def ravel_def item_def offset_of_def
      setLabel_def mapLabelBond_def Let_def upt_rec)

text \<open>
  Claim C3, amended. For every pair of well-formed NPTensors passed to \<open>contractNPT\<close>: if
  some label shared by the two names axes of different dimensions, the call fails (with
  numpy's ValueError); otherwise it succeeds, whatever the directions of the bonds, and
  the labels of the result are exactly the labels that are not shared.
\<close>

theorem contractNPT_checks_dimensions_only:
  fixes t1 t2 :: "'a::semiring_0 NPTensor"
  assumes v1: "valid_NPTensor t1" and v2: "valid_NPTensor t2"
  shows "if \<forall>x \<in> set (label t1) \<inter> set (label t2).
              shape (arr t1) ! pos_of t1 x = shape (arr t2) ! pos_of t2 x
         then \<exists>r. contractNPT t1 t2 = Inr r \<and>
                  mset (label r) =
                    mset (filter (\<lambda>x. x \<notin> set (label t1) \<inter> set (label t2)) (label t1 @ label t2))
         else contractNPT t1 t2 = Inl ValueError"
proof (cases "set (label t1) \<inter> set (label t2) = {}")
  case True
  from contractNPT_disjoint_result[OF v1 v2 True] obtain r where
    r: "contractNPT t1 t2 = Inr r"
    "label r = take (nat (ibn t1)) (label t1) @ take (nat (ibn t2)) (label t2) @
               drop (nat (ibn t1)) (label t1) @ drop (nat (ibn t2)) (label t2)"
    by blast
  have "mset (label r) = mset (label t1 @ label t2)"
    unfolding r(2) by (rule mset_quarters)
  then show ?thesis using r(1) True by (simp add: filter_not_in_empty)
next
  case False
  from contractNPT_shared[OF v1 v2 False] show ?thesis
    by (auto split: if_splits)
qed

text \<open>Equal dimensions contract to a scalar; dimensions 2 and 3 are refused.\<close>

theorem contractNPT_checks_dimensions_only_witness:
  "valid_NPTensor ex_V1 \<and> valid_NPTensor ex_V2 \<and> valid_NPTensor ex_V3 \<and>
   (\<exists>r. contractNPT ex_V1 ex_V2 = Inr r \<and> mset (label r) = {#}) \<and>
   contractNPT ex_V1 ex_V3 = Inl ValueError"
proof -
  have a: "\<exists>r. contractNPT ex_V1 ex_V2 = Inr r \<and> mset (label r) = {#}"
    using contractNPT_checks_dimensions_only[OF ex_V1_valid ex_V2_valid]
    by (simp add: ex_V1_def ex_V2_def pos_of_def)
  have b: "contractNPT ex_V1 ex_V3 = Inl ValueError"
    using contractNPT_checks_dimensions_only[OF ex_V1_valid ex_V3_valid]
    by (simp add: ex_V1_def ex_V3_def pos_of_def)
  show ?thesis using a b ex_V1_valid ex_V2_valid ex_V3_valid by simp
qed

section \<open>Properties of the blocked matrix multiply\<close>

subsection \<open>Copies\<close>

lemma memcpy_ok:
  assumes "doff + n \<le> length dst" "soff + n \<le> length src"
  shows "\<exists>d'. memcpy dst doff src soff n = Inr d' \<and> length d' = length dst \<and>
              (\<forall>k < length dst. d' ! k = (if doff \<le> k \<and> k < doff + n
                                          then src ! (soff + (k - doff)) else dst ! k))"
proof -
  define d' where "d' = take doff dst @ take n (drop soff src) @ drop (doff + n) dst"
  have m: "memcpy dst doff src soff n = Inr d'" using assms by (simp add: memcpy_def d'_def)
  have l: "length d' = length dst" using assms by (simp add: d'_def)
  have "d' ! k = (if doff \<le> k \<and> k < doff + n then src ! (soff + (k - doff)) else dst ! k)"
    if "k < length dst" for k
  proof -
    consider "k < doff" | "doff \<le> k" "k < doff + n" | "doff + n \<le> k" by linarith
    then show ?thesis
    proof cases
      case 1
      then show ?thesis using assms by (simp add: d'_def nth_append)
    next
      case 2
      then have "k - doff < n" by linarith
      then show ?thesis using 2 assms by (simp add: d'_def nth_append)
    next
      case 3
      then have "\<not> k < doff" "\<not> k - doff < n" "doff + n + (k - doff - n) = k" by linarith+
      then show ?thesis using 3 assms that by (simp add: d'_def nth_append)
    qed
  qed
  with m l show ?thesis by blast
qed

lemma fold_err_upt:
  assumes "i \<le> n" "P i s"
    and step: "\<And>k s. i \<le> k \<Longrightarrow> k < n \<Longrightarrow> P k s \<Longrightarrow> \<exists>s'. f k s = Inr s' \<and> P (Suc k) s'"
  shows "\<exists>s'. fold_err f [i..<n] s = Inr s' \<and> P n s'"
  using assms
proof (induction "n - i" arbitrary: i s)
  case 0
  then show ?case by simp
next
  case (Suc d)
  then have lt: "i < n" by simp
  from Suc.prems(3)[OF le_refl lt Suc.prems(2)] obtain s1 where
    s1: "f i s = Inr s1" "P (Suc i) s1" by blast
  have "\<exists>s'. fold_err f [Suc i..<n] s1 = Inr s' \<and> P n s'"
  proof (rule Suc.hyps(1))
    show "d = n - Suc i" using Suc.hyps(2) by simp
    show "Suc i \<le> n" using lt by simp
    show "P (Suc i) s1" by (rule s1(2))
    show "\<And>k s. Suc i \<le> k \<Longrightarrow> k < n \<Longrightarrow> P k s \<Longrightarrow> \<exists>s'. f k s = Inr s' \<and> P (Suc k) s'"
      using Suc.prems(3) by simp
  qed
  then show ?case using lt s1(1) by (simp add: upt_conv_Cons)
qed

lemma row_start_le: "r < (r0::nat) \<Longrightarrow> c < W \<Longrightarrow> r * W + c < r0 * W"
proof -
  assume r: "r < r0" and c: "c < W"
  have "Suc r * W \<le> r0 * W" using r by (intro mult_le_mono1) simp
  then show ?thesis using c by simp
qed

lemma seg_index:
  assumes "c < W" "sC + w \<le> (W::nat)"
  shows "(r0 * W + sC \<le> r * W + c \<and> r * W + c < r0 * W + sC + w) \<longleftrightarrow>
         (r = r0 \<and> sC \<le> c \<and> c < sC + w)"
proof (cases "r = r0")
  case True
  then show ?thesis by auto
next
  case False
  then consider "r < r0" | "r0 < r" by linarith
  then show ?thesis
  proof cases
    case 1
    then have "r * W + c < r0 * W" using assms(1) by (rule row_start_le)
    then show ?thesis using False by simp
  next
    case 2
    then have "Suc r0 * W \<le> r * W" by (intro mult_le_mono1) simp
    then have "r0 * W + sC + w \<le> r * W + c" using assms(2) by simp
    then show ?thesis using False by simp
  qed
qed

lemma copy_rows:
  fixes soff :: "nat \<Rightarrow> nat"
  assumes wd: "sC + w \<le> W" and db: "(R0 + m) * W \<le> length dst"
    and sb: "\<forall>i<m. soff i + w \<le> length src"
  shows "\<exists>d'. fold_err (\<lambda>i d. memcpy d ((i + R0) * W + sC) src (soff i) w) [0..<m] dst = Inr d' \<and>
              length d' = length dst \<and>
              (\<forall>r c. r * W + c < length dst \<longrightarrow> c < W \<longrightarrow>
                 d' ! (r * W + c) =
                   (if R0 \<le> r \<and> r < R0 + m \<and> sC \<le> c \<and> c < sC + w
                    then src ! (soff (r - R0) + (c - sC)) else dst ! (r * W + c)))"
proof -
  define P where "P = (\<lambda>k d. length d = length dst \<and>
              (\<forall>r c. r * W + c < length dst \<longrightarrow> c < W \<longrightarrow>
                 d ! (r * W + c) =
                   (if R0 \<le> r \<and> r < R0 + k \<and> sC \<le> c \<and> c < sC + w
                    then src ! (soff (r - R0) + (c - sC)) else dst ! (r * W + c))))"
  have "\<exists>d'. fold_err (\<lambda>i d. memcpy d ((i + R0) * W + sC) src (soff i) w) [0..<m] dst = Inr d' \<and> P m d'"
  proof (rule fold_err_upt)
    show "0 \<le> m" by simp
    show "P 0 dst" by (auto simp: P_def)
  next
    fix k d assume k: "k < m" and Pk: "P k d"
    have ld: "length d = length dst" using Pk by (simp add: P_def)
    have "Suc (k + R0) * W \<le> (R0 + m) * W" using k by (intro mult_le_mono1) simp
    then have b1: "(k + R0) * W + sC + w \<le> length d" using wd db ld by simp
    have b2: "soff k + w \<le> length src" using sb k by simp
    from memcpy_ok[OF b1 b2] obtain d' where
      d': "memcpy d ((k + R0) * W + sC) src (soff k) w = Inr d'" "length d' = length d"
      "\<forall>x < length d. d' ! x = (if (k + R0) * W + sC \<le> x \<and> x < (k + R0) * W + sC + w
                                  then src ! (soff k + (x - ((k + R0) * W + sC))) else d ! x)"
      by blast
    have "P (Suc k) d'"
      unfolding P_def
    proof (intro conjI allI impI)
      show "length d' = length dst" using d'(2) ld by simp
    next
      fix r c assume rc: "r * W + c < length dst" and c: "c < W"
      have seg: "((k + R0) * W + sC \<le> r * W + c \<and> r * W + c < (k + R0) * W + sC + w) \<longleftrightarrow>
                 (r = k + R0 \<and> sC \<le> c \<and> c < sC + w)"
        by (rule seg_index[OF c wd])
      have old: "d ! (r * W + c) =
                   (if R0 \<le> r \<and> r < R0 + k \<and> sC \<le> c \<and> c < sC + w
                    then src ! (soff (r - R0) + (c - sC)) else dst ! (r * W + c))"
        using Pk rc c by (simp add: P_def)
      show "d' ! (r * W + c) =
              (if R0 \<le> r \<and> r < R0 + Suc k \<and> sC \<le> c \<and> c < sC + w
               then src ! (soff (r - R0) + (c - sC)) else dst ! (r * W + c))"
      proof (cases "r = k + R0 \<and> sC \<le> c \<and> c < sC + w")
        case True
        then have "(k + R0) * W + sC \<le> r * W + c \<and> r * W + c < (k + R0) * W + sC + w"
          using seg by blast
        then have "d' ! (r * W + c) = src ! (soff k + (r * W + c - ((k + R0) * W + sC)))"
          using d'(3)[rule_format, of "r * W + c"] rc ld by auto
        then show ?thesis using True by simp
      next
        case False
        then have "\<not> ((k + R0) * W + sC \<le> r * W + c \<and> r * W + c < (k + R0) * W + sC + w)"
          using seg by blast
        then have "d' ! (r * W + c) = d ! (r * W + c)"
          using d'(3)[rule_format, of "r * W + c"] rc ld by auto
        moreover have "(R0 \<le> r \<and> r < R0 + Suc k \<and> sC \<le> c \<and> c < sC + w) \<longleftrightarrow>
                       (R0 \<le> r \<and> r < R0 + k \<and> sC \<le> c \<and> c < sC + w)"
          using False by auto
        ultimately show ?thesis using old by simp
      qed
    qed
    with d'(1) show "\<exists>s'. memcpy d ((k + R0) * W + sC) src (soff k) w = Inr s' \<and> P (Suc k) s'"
      by blast
  qed
  then show ?thesis by (simp add: P_def)
qed

subsection \<open>The multiply of one block\<close>

lemma pred_mult_add: "0 < n \<Longrightarrow> (n - 1) * k + k = n * (k::nat)"
  by (cases n) simp_all

lemma cublasDgemm_rowmajor:
  fixes opA opB C :: "'a::comm_semiring_1 list"
  assumes cp: "0 < cols"
    and bA: "offA + rows * K \<le> length opA"
    and bB: "K * cols \<le> length opB"
    and bC: "coff + rows * cols \<le> length C"
  shows "\<exists>C'. cublasDgemm cols rows K 1 opB 0 cols opA offA K 0 C coff cols = Inr C' \<and>
              length C' = length C \<and>
              (\<forall>rr<rows. \<forall>cc<cols. C' ! (coff + rr * cols + cc) =
                  (\<Sum>t \<leftarrow> [0..<K]. opB ! (cc + t * cols) * opA ! (offA + t + rr * K))) \<and>
              (\<forall>x<length C. \<not> (coff \<le> x \<and> x < coff + rows * cols) \<longrightarrow> C' ! x = C ! x)"
proof -
  define C' where "C' = map (\<lambda>x. if coff \<le> x \<and> (x - coff) div cols < rows \<and> (x - coff) mod cols < cols
                          then 1 * (\<Sum>t \<leftarrow> [0..<K]. opB ! (0 + (x - coff) mod cols + t * cols) *
                                                     opA ! (offA + t + (x - coff) div cols * K))
                               + 0 * C ! x
                          else C ! x)
                  [0..<length C]"
  have c1: "cols = 0 \<or> K = 0 \<or> 0 + (K - 1) * cols + cols \<le> length opB"
  proof (cases "K = 0")
    case False
    then have "(K - 1) * cols + cols = K * cols" using pred_mult_add[of K cols] by simp
    then show ?thesis using bB by simp
  qed simp
  have c2: "K = 0 \<or> rows = 0 \<or> offA + (rows - 1) * K + K \<le> length opA"
  proof (cases "rows = 0")
    case False
    then have "(rows - 1) * K + K = rows * K" using pred_mult_add[of rows K] by simp
    then show ?thesis using bA by simp
  qed simp
  have c3: "cols = 0 \<or> rows = 0 \<or> coff + (rows - 1) * cols + cols \<le> length C"
  proof (cases "rows = 0")
    case False
    then have "(rows - 1) * cols + cols = rows * cols" using pred_mult_add[of rows cols] by simp
    then show ?thesis using bC by simp
  qed simp
  have run: "cublasDgemm cols rows K 1 opB 0 cols opA offA K 0 C coff cols = Inr C'"
    unfolding cublasDgemm_def C'_def using c1 c2 c3 by simp
  have len: "length C' = length C" by (simp add: C'_def)
  have inside: "C' ! (coff + rr * cols + cc) =
                  (\<Sum>t \<leftarrow> [0..<K]. opB ! (cc + t * cols) * opA ! (offA + t + rr * K))"
    if "rr < rows" "cc < cols" for rr cc
  proof -
    have "rr * cols + cc < rows * cols" using that by (rule flat_index_less)
    then have x: "coff + rr * cols + cc < length C" using bC by simp
    have d: "(coff + rr * cols + cc - coff) div cols = rr" using that(2) by simp
    have m: "(coff + rr * cols + cc - coff) mod cols = cc" using that(2) by simp
    show ?thesis
      unfolding C'_def using x that by (simp only: nth_map_upt d m) simp
  qed
  have outside: "C' ! x = C ! x" if "x < length C" "\<not> (coff \<le> x \<and> x < coff + rows * cols)" for x
  proof (cases "coff \<le> x")
    case False
    then show ?thesis using that(1) by (simp add: C'_def)
  next
    case True
    then have "rows * cols \<le> x - coff" using that(2) by simp
    then have "rows * cols div cols \<le> (x - coff) div cols" by (rule div_le_mono)
    then have "\<not> (x - coff) div cols < rows" using cp by simp
    then show ?thesis using that(1) by (simp add: C'_def)
  qed
  show ?thesis using run len inside outside by blast
qed

lemma length_alloc: "length (alloc mem n) = n"
  by (simp add: alloc_def)

lemma getRows_ok:
  assumes h: "how_and how 4" and a: "start + spn \<le> M" and lA: "length iA = M * N"
    and lf: "N * spn \<le> length fA"
  shows "\<exists>fA'. getRows M N start spn iA fA how = Inr fA' \<and> length fA' = length fA \<and>
               (\<forall>k < N * spn. fA' ! k = iA ! (start * N + k))"
proof -
  have "(start + spn) * N \<le> M * N" using a by (rule mult_le_mono1)
  then have b2: "start * N + N * spn \<le> length iA" using lA by (simp add: algebra_simps)
  have b1: "0 + N * spn \<le> length fA" using lf by simp
  from memcpy_ok[OF b1 b2] obtain d' where
    d': "memcpy fA 0 iA (start * N) (N * spn) = Inr d'" "length d' = length fA"
    "\<forall>k < length fA. d' ! k = (if 0 \<le> k \<and> k < 0 + N * spn
                                  then iA ! (start * N + (k - 0)) else fA ! k)"
    by blast
  have "\<forall>k < N * spn. d' ! k = iA ! (start * N + k)" using d'(3) lf by auto
  then show ?thesis using d'(1,2) h a by (auto simp: getRows_def)
qed

lemma col_copy_loop:
  assumes a: "start + spn \<le> N" and lB: "length iB = M * N" and lf: "M * spn \<le> length fB"
  shows "\<exists>fB'. fold_err (\<lambda>i fB'. memcpy fB' (i * spn) iB (i * N + start) spn) [0..<M] fB = Inr fB' \<and>
               length fB' = length fB \<and>
               (\<forall>t<M. \<forall>c< spn. fB' ! (t * spn + c) = iB ! (t * N + start + c))"
proof -
  have wd: "0 + spn \<le> spn" by simp
  have db: "(0 + M) * spn \<le> length fB" using lf by simp
  have sb: "\<forall>i<M. i * N + start + spn \<le> length iB"
  proof (intro allI impI)
    fix i assume "i < M"
    then have "Suc i * N \<le> M * N" by (intro mult_le_mono1) simp
    then show "i * N + start + spn \<le> length iB" using a lB by simp
  qed
  from copy_rows[OF wd db sb] obtain d' where
    d': "fold_err (\<lambda>i d. memcpy d ((i + 0) * spn + 0) iB (i * N + start) spn) [0..<M] fB = Inr d'"
    "length d' = length fB"
    "\<forall>r c. r * spn + c < length fB \<longrightarrow> c < spn \<longrightarrow>
       d' ! (r * spn + c) =
         (if 0 \<le> r \<and> r < 0 + M \<and> 0 \<le> c \<and> c < 0 + spn
          then iB ! ((r - 0) * N + start + (c - 0)) else fB ! (r * spn + c))"
    by blast
  have "d' ! (t * spn + c) = iB ! (t * N + start + c)" if "t < M" "c < spn" for t c
  proof -
    have "t * spn + c < M * spn" using that by (rule flat_index_less)
    then have "t * spn + c < length fB" using lf by simp
    then show ?thesis using d'(3)[rule_format, of t c] that by simp
  qed
  then show ?thesis using d'(1,2) by auto
qed

lemma getCols_ok:
  assumes a: "start + spn \<le> N" and lB: "length iB = M * N" and lf: "M * spn \<le> length fB"
  shows "\<exists>fB'. getCols mem M N start spn iB fB how = Inr fB' \<and> length fB' = length fB \<and>
               (\<forall>t<M. \<forall>c< spn. fB' ! (t * spn + c) = iB ! (t * N + start + c))"
proof (cases "how_and how 2")
  case False
  with col_copy_loop[OF a lB lf] a show ?thesis by (simp add: getCols_def)
next
  case True
  have lt: "M * spn \<le> length (alloc mem (M * spn))" by (simp add: length_alloc)
  from col_copy_loop[OF a lB lt] obtain tmp where
    tmp: "fold_err (\<lambda>i tmp. memcpy tmp (i * spn) iB (i * N + start) spn) [0..<M]
            (alloc mem (M * spn)) = Inr tmp"
    "length tmp = M * spn"
    "\<forall>t<M. \<forall>c< spn. tmp ! (t * spn + c) = iB ! (t * N + start + c)"
    by (auto simp: length_alloc)
  have b1: "0 + M * spn \<le> length fB" using lf by simp
  have b2: "0 + M * spn \<le> length tmp" using tmp(2) by simp
  from memcpy_ok[OF b1 b2] obtain d' where
    d': "memcpy fB 0 tmp 0 (M * spn) = Inr d'" "length d' = length fB"
    "\<forall>k < length fB. d' ! k = (if 0 \<le> k \<and> k < 0 + M * spn then tmp ! (0 + (k - 0)) else fB ! k)"
    by blast
  have "d' ! (t * spn + c) = iB ! (t * N + start + c)" if "t < M" "c < spn" for t c
  proof -
    have k: "t * spn + c < M * spn" using that by (rule flat_index_less)
    then have "d' ! (t * spn + c) = tmp ! (t * spn + c)"
      using d'(3)[rule_format, of "t * spn + c"] lf by simp
    then show ?thesis using tmp(3) that by simp
  qed
  then show ?thesis using True a tmp(1) d'(1,2) by (simp add: getCols_def)
qed

lemma put_loop:
  assumes c: "startC + spanC \<le> N" and r: "startR + spanR \<le> M" and lC: "length C = M * N"
    and ls: "spanR * spanC \<le> length src"
  shows "\<exists>C'. fold_err (\<lambda>pos C'. memcpy C' ((pos + startR) * N + startC) src (pos * spanC) spanC)
                 [0..< spanR] C = Inr C' \<and>
              length C' = length C \<and>
              (\<forall>r<M. \<forall>c<N. C' ! (r * N + c) =
                 (if startR \<le> r \<and> r < startR + spanR \<and> startC \<le> c \<and> c < startC + spanC
                  then src ! ((r - startR) * spanC + (c - startC)) else C ! (r * N + c)))"
proof -
  have db: "(startR + spanR) * N \<le> length C" using r lC by (simp add: mult_le_mono1)
  have sb: "\<forall>i< spanR. i * spanC + spanC \<le> length src"
  proof (intro allI impI)
    fix i assume "i < spanR"
    then have "Suc i * spanC \<le> spanR * spanC" by (intro mult_le_mono1) simp
    then show "i * spanC + spanC \<le> length src" using ls by simp
  qed
  from copy_rows[OF c db sb] obtain d' where
    d': "fold_err (\<lambda>i d. memcpy d ((i + startR) * N + startC) src (i * spanC) spanC)
           [0..< spanR] C = Inr d'"
    "length d' = length C"
    "\<forall>r c. r * N + c < length C \<longrightarrow> c < N \<longrightarrow>
       d' ! (r * N + c) =
         (if startR \<le> r \<and> r < startR + spanR \<and> startC \<le> c \<and> c < startC + spanC
          then src ! ((r - startR) * spanC + (c - startC)) else C ! (r * N + c))"
    by blast
  have "d' ! (r * N + c) =
         (if startR \<le> r \<and> r < startR + spanR \<and> startC \<le> c \<and> c < startC + spanC
          then src ! ((r - startR) * spanC + (c - startC)) else C ! (r * N + c))"
    if "r < M" "c < N" for r c
  proof -
    have "r * N + c < M * N" using that by (rule flat_index_less)
    then show ?thesis using d'(3)[rule_format, of r c] that lC by simp
  qed
  then show ?thesis using d'(1,2) by blast
qed

lemma putBack_ok:
  assumes c: "startC + spanC \<le> N" and r: "startR + spanR \<le> M" and lC: "length C = M * N"
    and ls: "spanR * spanC \<le> length sbC"
  shows "\<exists>C'. putBack mem startR startC spanR spanC M N sbC C how = Inr C' \<and>
              length C' = length C \<and>
              (\<forall>r<M. \<forall>c<N. C' ! (r * N + c) =
                 (if startR \<le> r \<and> r < startR + spanR \<and> startC \<le> c \<and> c < startC + spanC
                  then sbC ! ((r - startR) * spanC + (c - startC)) else C ! (r * N + c)))"
proof (cases "how_and how 1")
  case False
  with put_loop[OF c r lC ls] show ?thesis by (simp add: putBack_def)
next
  case True
  have b1: "0 + spanR * spanC \<le> length (alloc mem (spanR * spanC))" by (simp add: length_alloc)
  have b2: "0 + spanR * spanC \<le> length sbC" using ls by simp
  from memcpy_ok[OF b1 b2] obtain tmp where
    tmp: "memcpy (alloc mem (spanR * spanC)) 0 sbC 0 (spanR * spanC) = Inr tmp"
    "length tmp = spanR * spanC"
    "\<forall>k < spanR * spanC. tmp ! k = sbC ! k"
    by (auto simp: length_alloc)
  have lt: "spanR * spanC \<le> length tmp" using tmp(2) by simp
  from put_loop[OF c r lC lt] obtain C' where
    C': "fold_err (\<lambda>pos C'. memcpy C' ((pos + startR) * N + startC) tmp (pos * spanC) spanC)
                 [0..< spanR] C = Inr C'"
    "length C' = length C"
    "\<forall>r<M. \<forall>c<N. C' ! (r * N + c) =
                 (if startR \<le> r \<and> r < startR + spanR \<and> startC \<le> c \<and> c < startC + spanC
                  then tmp ! ((r - startR) * spanC + (c - startC)) else C ! (r * N + c))"
    by blast
  have "C' ! (r * N + c) =
          (if startR \<le> r \<and> r < startR + spanR \<and> startC \<le> c \<and> c < startC + spanC
           then sbC ! ((r - startR) * spanC + (c - startC)) else C ! (r * N + c))"
    if "r < M" "c < N" for r c
  proof (cases "startR \<le> r \<and> r < startR + spanR \<and> startC \<le> c \<and> c < startC + spanC")
    case False
    then show ?thesis using C'(3) that by auto
  next
    case True
    then have "r - startR < spanR" "c - startC < spanC" by linarith+
    then have "(r - startR) * spanC + (c - startC) < spanR * spanC" by (rule flat_index_less)
    then have "tmp ! ((r - startR) * spanC + (c - startC)) = sbC ! ((r - startR) * spanC + (c - startC))"
      using tmp(3) by simp
    then show ?thesis using C'(3) that True by auto
  qed
  then show ?thesis using \<open>how_and how 1\<close> tmp(1) C'(1,2) by (simp add: putBack_def)
qed

lemma block_rows:
  assumes "0 < p" "i < p"
  shows "M div p + M mod p * ((i + 1) div p) \<le> M div p + M mod p"
    and "i * (M div p) + (M div p + M mod p * ((i + 1) div p)) \<le> M"
    and "Suc i < p \<Longrightarrow> i * (M div p) + (M div p + M mod p * ((i + 1) div p)) = Suc i * (M div p)"
    and "Suc i = p \<Longrightarrow> i * (M div p) + (M div p + M mod p * ((i + 1) div p)) = M"
proof -
  have d: "Suc i div p = (if Suc i = p then 1 else 0)" using assms by auto
  show "M div p + M mod p * ((i + 1) div p) \<le> M div p + M mod p" by (simp add: d)
  show last: "Suc i = p \<Longrightarrow> i * (M div p) + (M div p + M mod p * ((i + 1) div p)) = M"
  proof -
    assume e: "Suc i = p"
    have "Suc i * (M div Suc i) + M mod Suc i = M" by (rule mult_div_mod_eq)
    then have "i * (M div Suc i) + (M div Suc i + M mod Suc i) = M" by simp
    then show ?thesis using e d by auto
  qed
  show mid: "Suc i < p \<Longrightarrow> i * (M div p) + (M div p + M mod p * ((i + 1) div p)) = Suc i * (M div p)"
    by (simp add: d)
  show "i * (M div p) + (M div p + M mod p * ((i + 1) div p)) \<le> M"
  proof (cases "Suc i = p")
    case True
    then show ?thesis using last by simp
  next
    case False
    then have lt: "Suc i < p" using assms by simp
    have "Suc i * (M div p) \<le> p * (M div p)" using lt by (intro mult_le_mono1) simp
    also have "\<dots> \<le> M" by simp
    finally have "Suc i * (M div p) \<le> M" .
    then show ?thesis unfolding mid[OF lt] .
  qed
qed

lemma sum_list_upt_cong:
  "(\<And>t. t < K \<Longrightarrow> f t = g t) \<Longrightarrow> (\<Sum>t \<leftarrow> [0..<K]. f t) = (\<Sum>t \<leftarrow> [0..<K]. g t)"
  by (rule arg_cong[where f = sum_list]) simp

lemma row_band:
  assumes "c < (N::nat)"
  shows "(r0 * N \<le> r * N + c \<and> r * N + c < r0 * N + rows * N) \<longleftrightarrow> (r0 \<le> r \<and> r < r0 + rows)"
proof -
  have a: "r0 * N \<le> r * N + c \<longleftrightarrow> r0 \<le> r"
  proof
    assume "r0 * N \<le> r * N + c"
    show "r0 \<le> r"
    proof (rule ccontr)
      assume "\<not> r0 \<le> r"
      then have "r * N + c < r0 * N" using assms by (intro row_start_le) simp_all
      with \<open>r0 * N \<le> r * N + c\<close> show False by simp
    qed
  next
    assume "r0 \<le> r"
    then have "r0 * N \<le> r * N" by (rule mult_le_mono1)
    then show "r0 * N \<le> r * N + c" by (rule trans_le_add1)
  qed
  have b: "r * N + c < r0 * N + rows * N \<longleftrightarrow> r < r0 + rows"
  proof
    assume "r * N + c < r0 * N + rows * N"
    show "r < r0 + rows"
    proof (rule ccontr)
      assume "\<not> r < r0 + rows"
      then have "(r0 + rows) * N \<le> r * N" by (intro mult_le_mono1) simp
      with \<open>r * N + c < r0 * N + rows * N\<close> show False by (simp add: algebra_simps)
    qed
  next
    assume "r < r0 + rows"
    then have "r * N + c < (r0 + rows) * N" using assms by (rule row_start_le)
    then show "r * N + c < r0 * N + rows * N" by (simp add: algebra_simps)
  qed
  show ?thesis using a b by simp
qed

lemma dgemm_block_ok:
  fixes A B :: "'a::comm_semiring_1 list"
  assumes p: "0 < p" "i < p" and q: "0 < q" "j < q" "q \<le> N"
    and lA: "length A = M * K" and lB: "length B = K * N" and lC: "length (Cbuf s) = M * N"
    and sA: "how_and how 4 \<Longrightarrow> length (subA s) = (M div p + M mod p) * K"
    and sB: "how_and how 2 \<or> q > 1 \<Longrightarrow> length (subB s) = K * (N div q + N mod q)"
    and sC: "how_and how 1 \<or> q > 1 \<Longrightarrow>
             length (subC s) = (M div p + M mod p) * (N div q + N mod q)"
  shows "\<exists>s'. dgemm_block mem p q M N K A B how i j s = Inr s' \<and>
              length (subA s') = length (subA s) \<and> length (subB s') = length (subB s) \<and>
              length (subC s') = length (subC s) \<and> length (Cbuf s') = M * N \<and>
              (\<forall>r<M. \<forall>c<N. Cbuf s' ! (r * N + c) =
                 (if i * (M div p) \<le> r \<and>
                     r < i * (M div p) + (M div p + M mod p * ((i + 1) div p)) \<and>
                     j * (N div q) \<le> c \<and>
                     c < j * (N div q) + (N div q + N mod q * ((j + 1) div q))
                  then prod_entry N K A B r c else Cbuf s ! (r * N + c)))"
proof -
  define r0 where "r0 = i * (M div p)"
  define c0 where "c0 = j * (N div q)"
  define rows where "rows = M div p + M mod p * ((i + 1) div p)"
  define cols where "cols = N div q + N mod q * ((j + 1) div q)"
  note gr = block_rows[OF p, of M, folded rows_def r0_def]
  note gc = block_rows[OF q(1,2), of N, folded cols_def c0_def]
  have qN: "0 < N div q" using q by (simp add: div_greater_zero_iff)
  have cp: "0 < cols" using qN by (simp add: cols_def)
  \<comment> \<open>the left operand\<close>
  obtain sA' opA offA where
    eA: "(if how_and how 4 then getRows M K r0 rows A (subA s) how else Inr (subA s)) = Inr sA'"
    and oA: "(if how_and how 4 then (sA', 0) else (A, r0 * K)) = (opA, offA)"
    and lsA: "length sA' = length (subA s)"
    and bA: "offA + rows * K \<le> length opA"
    and vA: "\<forall>rr<rows. \<forall>t<K. opA ! (offA + t + rr * K) = A ! ((r0 + rr) * K + t)"
  proof (cases "how_and how 4")
    case True
    have "K * rows \<le> length (subA s)"
      using sA[OF True] gr(1) by (simp add: mult.commute mult_le_mono2)
    from getRows_ok[OF True gr(2) lA this] obtain fA' where
      f: "getRows M K r0 rows A (subA s) how = Inr fA'" "length fA' = length (subA s)"
      "\<forall>k < K * rows. fA' ! k = A ! (r0 * K + k)"
      by blast
    have "fA' ! (0 + t + rr * K) = A ! ((r0 + rr) * K + t)" if "rr < rows" "t < K" for rr t
    proof -
      have "rr * K + t < rows * K" using that by (rule flat_index_less)
      then have "fA' ! (rr * K + t) = A ! (r0 * K + (rr * K + t))"
        using f(3) by (simp add: mult.commute)
      then show ?thesis by (simp add: algebra_simps)
    qed
    moreover have "0 + rows * K \<le> length fA'"
      using f(2) sA[OF True] gr(1) by (simp add: mult_le_mono1)
    ultimately show ?thesis using that[of fA' fA' 0] True f(1,2) by simp
  next
    case False
    have "(r0 + rows) * K \<le> M * K" using gr(2) by (rule mult_le_mono1)
    then have "r0 * K + rows * K \<le> length A" using lA by (simp add: algebra_simps)
    moreover have "A ! (r0 * K + t + rr * K) = A ! ((r0 + rr) * K + t)" for rr t
      by (simp add: algebra_simps)
    ultimately show ?thesis using that[of "subA s" A "r0 * K"] False by simp
  qed
  \<comment> \<open>the right operand\<close>
  obtain sB' opB where
    eB: "(if how_and how 2 \<or> q > 1 then getCols mem K N c0 cols B (subB s) how
          else Inr (subB s)) = Inr sB'"
    and oB: "(if how_and how 2 \<or> q > 1 then sB' else B) = opB"
    and lsB: "length sB' = length (subB s)"
    and bB: "K * cols \<le> length opB"
    and vB: "\<forall>t<K. \<forall>cc<cols. opB ! (cc + t * cols) = B ! (t * N + c0 + cc)"
  proof (cases "how_and how 2 \<or> q > 1")
    case True
    have l: "K * cols \<le> length (subB s)" using sB[OF True] gc(1) by simp
    from getCols_ok[OF gc(2) lB l, of mem how] obtain fB' where
      f: "getCols mem K N c0 cols B (subB s) how = Inr fB'" "length fB' = length (subB s)"
      "\<forall>t<K. \<forall>c<cols. fB' ! (t * cols + c) = B ! (t * N + c0 + c)"
      by blast
    have "\<forall>t<K. \<forall>cc<cols. fB' ! (cc + t * cols) = B ! (t * N + c0 + cc)"
      using f(3) by (simp add: add.commute)
    then show ?thesis using that[of fB' fB'] True f(1,2) l by simp
  next
    case False
    then have q1: "q = 1" using q(1) by simp
    then have j0: "j = 0" using q(2) by simp
    have c: "c0 = 0" "cols = N" using q1 j0 by (simp_all add: c0_def cols_def)
    have "\<forall>t<K. \<forall>cc<cols. B ! (cc + t * cols) = B ! (t * N + c0 + cc)"
      by (simp add: c add.commute)
    then show ?thesis using that[of "subB s" B] False lB c by simp
  qed
  \<comment> \<open>one block of the product\<close>
  have entry: "(\<Sum>t \<leftarrow> [0..<K]. opB ! (cc + t * cols) * opA ! (offA + t + rr * K)) =
               prod_entry N K A B (r0 + rr) (c0 + cc)"
    if "rr < rows" "cc < cols" for rr cc
    unfolding prod_entry_def
  proof (rule sum_list_upt_cong)
    fix t assume t: "t < K"
    have a: "opA ! (offA + t + rr * K) = A ! ((r0 + rr) * K + t)" using vA that(1) t by blast
    have b: "opB ! (cc + t * cols) = B ! (t * N + c0 + cc)" using vB that(2) t by blast
    show "opB ! (cc + t * cols) * opA ! (offA + t + rr * K) =
               A ! ((r0 + rr) * K + t) * B ! (t * N + (c0 + cc))"
      unfolding a b by (simp add: mult.commute add.assoc)
  qed
  have unf: "dgemm_block mem p q M N K A B how i j s =
       (if how_and how 1 \<or> q > 1 then
          (case cublasDgemm cols rows K 1 opB 0 cols opA offA K 0 (subC s) 0 cols of
             Inl e \<Rightarrow> Inl e
           | Inr sC \<Rightarrow>
               (case putBack mem r0 c0 rows cols M N sC (Cbuf s) how of
                  Inl e \<Rightarrow> Inl e
                | Inr C' \<Rightarrow> Inr \<lparr>subA = sA', subB = sB', subC = sC, Cbuf = C'\<rparr>))
        else
          (case cublasDgemm cols rows K 1 opB 0 cols opA offA K 0 (Cbuf s) (r0 * N) cols of
             Inl e \<Rightarrow> Inl e
           | Inr C' \<Rightarrow> Inr \<lparr>subA = sA', subB = sB', subC = subC s, Cbuf = C'\<rparr>))"
    unfolding dgemm_block_def block_span_def Let_def r0_def[symmetric] c0_def[symmetric] rows_def[symmetric]
      cols_def[symmetric] eA eB sum.case oA oB prod.case ..
  show ?thesis
  proof (cases "how_and how 1 \<or> q > 1")
    case True
    have "rows * cols \<le> (M div p + M mod p) * (N div q + N mod q)"
      using gr(1) gc(1) by (rule mult_le_mono)
    then have bC: "0 + rows * cols \<le> length (subC s)" using sC[OF True] by simp
    from cublasDgemm_rowmajor[OF cp bA bB bC] obtain sC' where
      g: "cublasDgemm cols rows K 1 opB 0 cols opA offA K 0 (subC s) 0 cols = Inr sC'"
      "length sC' = length (subC s)"
      "\<forall>rr<rows. \<forall>cc<cols. sC' ! (0 + rr * cols + cc) =
          (\<Sum>t \<leftarrow> [0..<K]. opB ! (cc + t * cols) * opA ! (offA + t + rr * K))"
      by blast
    have ls: "rows * cols \<le> length sC'" using g(2) bC by simp
    from putBack_ok[OF gc(2) gr(2) lC ls, of mem how] obtain C' where
      pb: "putBack mem r0 c0 rows cols M N sC' (Cbuf s) how = Inr C'"
      "length C' = length (Cbuf s)"
      "\<forall>r<M. \<forall>c<N. C' ! (r * N + c) =
         (if r0 \<le> r \<and> r < r0 + rows \<and> c0 \<le> c \<and> c < c0 + cols
          then sC' ! ((r - r0) * cols + (c - c0)) else Cbuf s ! (r * N + c))"
      by blast
    have cells: "C' ! (r * N + c) =
         (if r0 \<le> r \<and> r < r0 + rows \<and> c0 \<le> c \<and> c < c0 + cols
          then prod_entry N K A B r c else Cbuf s ! (r * N + c))" if "r < M" "c < N" for r c
    proof (cases "r0 \<le> r \<and> r < r0 + rows \<and> c0 \<le> c \<and> c < c0 + cols")
      case False
      then show ?thesis using pb(3) that by auto
    next
      case True
      then have rc: "r - r0 < rows" "c - c0 < cols" by linarith+
      have "sC' ! ((r - r0) * cols + (c - c0)) = prod_entry N K A B (r0 + (r - r0)) (c0 + (c - c0))"
        using g(3)[rule_format, OF rc] entry[OF rc] by simp
      then show ?thesis using pb(3) that True by auto
    qed
    have "dgemm_block mem p q M N K A B how i j s =
          Inr \<lparr>subA = sA', subB = sB', subC = sC', Cbuf = C'\<rparr>"
      unfolding unf using True g(1) pb(1) by simp
    then show ?thesis
      using lsA lsB g(2) pb(2) lC cells
      by (simp add: r0_def c0_def rows_def cols_def)
  next
    case False
    then have q1: "q = 1" using q(1) by simp
    then have j0: "j = 0" using q(2) by simp
    have c: "c0 = 0" "cols = N" using q1 j0 by (simp_all add: c0_def cols_def)
    have "(r0 + rows) * N \<le> M * N" using gr(2) by (rule mult_le_mono1)
    then have bC: "r0 * N + rows * cols \<le> length (Cbuf s)" using lC c by (simp add: algebra_simps)
    from cublasDgemm_rowmajor[OF cp bA bB bC] obtain C' where
      g: "cublasDgemm cols rows K 1 opB 0 cols opA offA K 0 (Cbuf s) (r0 * N) cols = Inr C'"
      "length C' = length (Cbuf s)"
      "\<forall>rr<rows. \<forall>cc<cols. C' ! (r0 * N + rr * cols + cc) =
          (\<Sum>t \<leftarrow> [0..<K]. opB ! (cc + t * cols) * opA ! (offA + t + rr * K))"
      "\<forall>x<length (Cbuf s). \<not> (r0 * N \<le> x \<and> x < r0 * N + rows * cols) \<longrightarrow> C' ! x = Cbuf s ! x"
      by blast
    have cells: "C' ! (r * N + c) =
         (if r0 \<le> r \<and> r < r0 + rows \<and> c0 \<le> c \<and> c < c0 + cols
          then prod_entry N K A B r c else Cbuf s ! (r * N + c))" if "r < M" "c < N" for r c
    proof (cases "r0 \<le> r \<and> r < r0 + rows")
      case False
      then have "\<not> (r0 * N \<le> r * N + c \<and> r * N + c < r0 * N + rows * cols)"
        using row_band[OF that(2), of r0 r rows] c by simp
      moreover have "r * N + c < length (Cbuf s)"
        using flat_index_less[OF that] lC by simp
      ultimately have "C' ! (r * N + c) = Cbuf s ! (r * N + c)" using g(4) by blast
      then show ?thesis using False by auto
    next
      case True
      then have rr: "r - r0 < rows" by linarith
      have cc: "c < cols" using that c by simp
      have "r0 * N + (r - r0) * cols + c = r * N + c"
        using True c by (simp add: algebra_simps flip: add_mult_distrib)
      moreover have "C' ! (r0 * N + (r - r0) * cols + c) = prod_entry N K A B (r0 + (r - r0)) (c0 + c)"
        using g(3)[rule_format, OF rr cc] entry[OF rr cc] by simp
      ultimately show ?thesis using True that c by simp
    qed
    have "dgemm_block mem p q M N K A B how i j s =
          Inr \<lparr>subA = sA', subB = sB', subC = subC s, Cbuf = C'\<rparr>"
      unfolding unf using False g(1) by simp
    then show ?thesis
      using lsA lsB g(2) lC cells
      by (simp add: r0_def c0_def rows_def cols_def)
  qed
qed

subsection \<open>The two loops\<close>

lemma span_end_Suc:
  assumes "0 < p" "i < p"
  shows "span_end M p (Suc i) = i * (M div p) + (M div p + M mod p * ((i + 1) div p))"
    and "span_end M p i = i * (M div p)"
  using block_rows(3,4)[OF assms, of M] assms by (auto simp: span_end_def)

lemma dgemm_row_ok:
  fixes A B :: "'a::comm_semiring_1 list"
  assumes p: "0 < p" "i < p" and q: "0 < q" "q \<le> N"
    and lA: "length A = M * K" and lB: "length B = K * N"
    and ok: "scratch_ok p q M N K how s"
  shows "\<exists>s'. fold_err (dgemm_block mem p q M N K A B how i) [0..<q] s = Inr s' \<and>
              scratch_ok p q M N K how s' \<and>
              (\<forall>r<M. \<forall>c<N. Cbuf s' ! (r * N + c) =
                 (if span_end M p i \<le> r \<and> r < span_end M p (Suc i)
                  then prod_entry N K A B r c else Cbuf s ! (r * N + c)))"
proof -
  define P where "P = (\<lambda>j s'. scratch_ok p q M N K how s' \<and>
              (\<forall>r<M. \<forall>c<N. Cbuf s' ! (r * N + c) =
                 (if span_end M p i \<le> r \<and> r < span_end M p (Suc i) \<and> c < span_end N q j
                  then prod_entry N K A B r c else Cbuf s ! (r * N + c))))"
  have "\<exists>s'. fold_err (dgemm_block mem p q M N K A B how i) [0..<q] s = Inr s' \<and> P q s'"
  proof (rule fold_err_upt)
    show "0 \<le> q" by simp
    show "P 0 s" using ok q(1) by (simp add: P_def span_end_def)
  next
    fix j s1 assume j: "j < q" and Pj: "P j s1"
    have ok1: "scratch_ok p q M N K how s1" using Pj by (simp add: P_def)
    have old: "\<And>r c. r < M \<Longrightarrow> c < N \<Longrightarrow> Cbuf s1 ! (r * N + c) =
                 (if span_end M p i \<le> r \<and> r < span_end M p (Suc i) \<and> c < span_end N q j
                  then prod_entry N K A B r c else Cbuf s ! (r * N + c))"
      using Pj by (simp add: P_def)
    have "\<exists>s'. dgemm_block mem p q M N K A B how i j s1 = Inr s' \<and>
              length (subA s') = length (subA s1) \<and> length (subB s') = length (subB s1) \<and>
              length (subC s') = length (subC s1) \<and> length (Cbuf s') = M * N \<and>
              (\<forall>r<M. \<forall>c<N. Cbuf s' ! (r * N + c) =
                 (if i * (M div p) \<le> r \<and>
                     r < i * (M div p) + (M div p + M mod p * ((i + 1) div p)) \<and>
                     j * (N div q) \<le> c \<and>
                     c < j * (N div q) + (N div q + N mod q * ((j + 1) div q))
                  then prod_entry N K A B r c else Cbuf s1 ! (r * N + c)))"
      using ok1 by (intro dgemm_block_ok[OF p q(1) j q(2) lA lB]) (auto simp: scratch_ok_def)
    then obtain s' where
      s': "dgemm_block mem p q M N K A B how i j s1 = Inr s'"
      "length (subA s') = length (subA s1)" "length (subB s') = length (subB s1)"
      "length (subC s') = length (subC s1)" "length (Cbuf s') = M * N"
      and new: "\<And>r c. r < M \<Longrightarrow> c < N \<Longrightarrow> Cbuf s' ! (r * N + c) =
                 (if span_end M p i \<le> r \<and> r < span_end M p (Suc i) \<and>
                     span_end N q j \<le> c \<and> c < span_end N q (Suc j)
                  then prod_entry N K A B r c else Cbuf s1 ! (r * N + c))"
      unfolding span_end_Suc[OF p, of M] span_end_Suc[OF q(1) j, of N] by blast
    have ok': "scratch_ok p q M N K how s'" using ok1 s'(2-5) by (simp add: scratch_ok_def)
    have mono: "span_end N q j \<le> span_end N q (Suc j)"
      unfolding span_end_Suc[OF q(1) j, of N] by simp
    have "Cbuf s' ! (r * N + c) =
                 (if span_end M p i \<le> r \<and> r < span_end M p (Suc i) \<and> c < span_end N q (Suc j)
                  then prod_entry N K A B r c else Cbuf s ! (r * N + c))"
      if "r < M" "c < N" for r c
      using new[OF that] old[OF that] mono by auto
    then have "P (Suc j) s'" using ok' by (simp add: P_def)
    with s'(1) show "\<exists>s'. dgemm_block mem p q M N K A B how i j s1 = Inr s' \<and> P (Suc j) s'"
      by blast
  qed
  then show ?thesis by (auto simp: P_def span_end_def)
qed

lemma dgemm_loops_ok:
  fixes A B :: "'a::comm_semiring_1 list"
  assumes p: "0 < p" and q: "0 < q" "q \<le> N"
    and lA: "length A = M * K" and lB: "length B = K * N"
    and ok: "scratch_ok p q M N K how s"
  shows "\<exists>s'. fold_err (\<lambda>i. fold_err (dgemm_block mem p q M N K A B how i) [0..<q]) [0..<p] s = Inr s' \<and>
              length (Cbuf s') = M * N \<and>
              (\<forall>r<M. \<forall>c<N. Cbuf s' ! (r * N + c) = prod_entry N K A B r c)"
proof -
  define P where "P = (\<lambda>i s'. scratch_ok p q M N K how s' \<and>
              (\<forall>r<M. \<forall>c<N. Cbuf s' ! (r * N + c) =
                 (if r < span_end M p i
                  then prod_entry N K A B r c else Cbuf s ! (r * N + c))))"
  have "\<exists>s'. fold_err (\<lambda>i. fold_err (dgemm_block mem p q M N K A B how i) [0..<q]) [0..<p] s = Inr s' \<and> P p s'"
  proof (rule fold_err_upt)
    show "0 \<le> p" by simp
    show "P 0 s" using ok p by (simp add: P_def span_end_def)
  next
    fix i s1 assume i: "i < p" and Pi: "P i s1"
    have ok1: "scratch_ok p q M N K how s1" using Pi by (simp add: P_def)
    have old: "\<And>r c. r < M \<Longrightarrow> c < N \<Longrightarrow> Cbuf s1 ! (r * N + c) =
                 (if r < span_end M p i then prod_entry N K A B r c else Cbuf s ! (r * N + c))"
      using Pi by (simp add: P_def)
    from dgemm_row_ok[OF p i q lA lB ok1, of mem] obtain s' where
      s': "fold_err (dgemm_block mem p q M N K A B how i) [0..<q] s1 = Inr s'"
      "scratch_ok p q M N K how s'"
      and new: "\<And>r c. r < M \<Longrightarrow> c < N \<Longrightarrow> Cbuf s' ! (r * N + c) =
                 (if span_end M p i \<le> r \<and> r < span_end M p (Suc i)
                  then prod_entry N K A B r c else Cbuf s1 ! (r * N + c))"
      by blast
    have mono: "span_end M p i \<le> span_end M p (Suc i)"
      unfolding span_end_Suc[OF p i, of M] by simp
    have "Cbuf s' ! (r * N + c) =
                 (if r < span_end M p (Suc i)
                  then prod_entry N K A B r c else Cbuf s ! (r * N + c))"
      if "r < M" "c < N" for r c
      using new[OF that] old[OF that] mono by auto
    then have "P (Suc i) s'" using s'(2) by (simp add: P_def)
    with s'(1) show "\<exists>s'. fold_err (dgemm_block mem p q M N K A B how i) [0..<q] s1 = Inr s' \<and> P (Suc i) s'"
      by blast
  qed
  then show ?thesis by (auto simp: P_def span_end_def scratch_ok_def)
qed

lemma single_Dgemm_ok:
  fixes A B C :: "'a::comm_semiring_1 list"
  assumes N: "0 < N" and lA: "length A = M * K" and lB: "length B = K * N"
    and lC: "length C = M * N"
  shows "\<exists>C'. single_Dgemm M N K A B C = Inr C' \<and> length C' = M * N \<and>
              (\<forall>r<M. \<forall>c<N. C' ! (r * N + c) = prod_entry N K A B r c)"
proof -
  have bA: "0 + M * K \<le> length A" using lA by simp
  have bB: "K * N \<le> length B" using lB by simp
  have bC: "0 + M * N \<le> length C" using lC by simp
  from cublasDgemm_rowmajor[OF N bA bB bC] obtain C' where
    g: "cublasDgemm N M K 1 B 0 N A 0 K 0 C 0 N = Inr C'" "length C' = length C"
    "\<forall>rr<M. \<forall>cc<N. C' ! (0 + rr * N + cc) =
          (\<Sum>t \<leftarrow> [0..<K]. B ! (cc + t * N) * A ! (0 + t + rr * K))"
    by blast
  have "C' ! (r * N + c) = prod_entry N K A B r c" if "r < M" "c < N" for r c
  proof -
    have "(\<Sum>t \<leftarrow> [0..<K]. B ! (c + t * N) * A ! (0 + t + r * K)) = prod_entry N K A B r c"
      unfolding prod_entry_def
      by (rule sum_list_upt_cong) (simp add: mult.commute add.commute)
    then show ?thesis using g(3) that by simp
  qed
  then show ?thesis using g(1,2) lC by (simp add: single_Dgemm_def)
qed

lemma cells_determine:
  assumes "length X = M * N" "length Y = M * N"
    and "\<forall>r<M. \<forall>c<N. X ! (r * N + c) = Y ! (r * N + c)"
  shows "X = Y"
proof (rule nth_equalityI)
  show "length X = length Y" using assms by simp
next
  fix x assume "x < length X"
  then have x: "x < M * N" using assms by simp
  then have N: "0 < N" by (cases N) simp_all
  have "x div N < M" using x by (simp add: less_mult_imp_div_less)
  moreover have "x mod N < N" using N by simp
  ultimately have "X ! (x div N * N + x mod N) = Y ! (x div N * N + x mod N)"
    using assms(3) by blast
  then show "X ! x = Y ! x" by simp
qed

lemma block_span_last:
  assumes "0 < p" "i < p"
  shows "block_span M p i = (if Suc i = p then M div p + M mod p else M div p)"
proof -
  have "Suc i div p = (if Suc i = p then 1 else 0)" using assms by auto
  then show ?thesis by (simp add: block_span_def)
qed

text \<open>
  Claim C9. For every \<open>M x K\<close> matrix \<open>A\<close>, \<open>K x N\<close> matrix \<open>B\<close> and \<open>M x N\<close> buffer
  \<open>C\<close> (row-major, of sizes that fit an \<open>int\<close>), all partition counts \<open>1 \<le> p \<le> M\<close>
  and \<open>1 \<le> q \<le> N\<close>, every placement \<open>how\<close> and all contents of fresh memory:
  \<open>myDgemm(p, q, M, N, K, A, B, C, how)\<close> runs without a failed assertion or an access
  out of bounds and leaves in \<open>C\<close> what a single unpartitioned multiply leaves, the
  product \<open>A B\<close>; every block but the last has \<open>M / p\<close> rows (\<open>N / q\<close> columns), and the
  last block takes the remainder \<open>M mod p\<close> (\<open>N mod q\<close>) as well.
\<close>

theorem myDgemm_blocked:
  fixes A B C :: "'a::comm_semiring_1 list"
  assumes p: "1 \<le> p" "p \<le> M" and q: "1 \<le> q" "q \<le> N"
    and lA: "length A = M * K" and lB: "length B = K * N" and lC: "length C = M * N"
    and fits: "M * K < 2 ^ 31" "K * N < 2 ^ 31" "M * N < 2 ^ 31"
  shows "myDgemm mem p q M N K A B C how = single_Dgemm M N K A B C \<and>
         (\<exists>C'. single_Dgemm M N K A B C = Inr C' \<and> length C' = M * N \<and>
               (\<forall>r<M. \<forall>c<N. C' ! (r * N + c) = prod_entry N K A B r c)) \<and>
         (\<forall>i<p. block_span M p i = (if Suc i = p then M div p + M mod p else M div p)) \<and>
         (\<forall>j<q. block_span N q j = (if Suc j = q then N div q + N mod q else N div q))"
proof -
  have p0: "0 < p" and q0: "0 < q" and N0: "0 < N" using p q by simp_all
  define s0 where "s0 = \<lparr>subA = (if how_and how 4 then alloc mem ((M div p + M mod p) * K) else []),
                  subB = (if how_and how 2 \<or> q > 1 then alloc mem (K * (N div q + N mod q)) else []),
                  subC = (if how_and how 1 \<or> q > 1
                          then alloc mem ((M div p + M mod p) * (N div q + N mod q)) else []),
                  Cbuf = C\<rparr>"
  have ok: "scratch_ok p q M N K how s0"
    using lC by (simp add: scratch_ok_def s0_def length_alloc)
  from dgemm_loops_ok[OF p0 q0 q(2) lA lB ok, of mem] obtain s' where
    s': "fold_err (\<lambda>i. fold_err (dgemm_block mem p q M N K A B how i) [0..<q]) [0..<p] s0 = Inr s'"
    "length (Cbuf s') = M * N"
    "\<forall>r<M. \<forall>c<N. Cbuf s' ! (r * N + c) = prod_entry N K A B r c"
    by blast
  have run: "myDgemm mem p q M N K A B C how = Inr (Cbuf s')"
    unfolding myDgemm_def Let_def s0_def[symmetric] s'(1) using p0 q0 by simp
  from single_Dgemm_ok[OF N0 lA lB lC] obtain C' where
    C': "single_Dgemm M N K A B C = Inr C'" "length C' = M * N"
    "\<forall>r<M. \<forall>c<N. C' ! (r * N + c) = prod_entry N K A B r c"
    by blast
  have "Cbuf s' = C'"
    using s'(2,3) C'(2,3) by (intro cells_determine[of _ M N]) simp_all
  then show ?thesis
    using run C' block_span_last[OF p0] block_span_last[OF q0] by simp
qed

text \<open>
  A 3 x 2 by 2 x 3 product in 2 x 2 blocks, with \<open>A\<close> and \<open>C\<close> on the host: the row
  blocks have 1 and 2 rows.
\<close>

theorem myDgemm_blocked_witness:
  "(1::nat) \<le> 2 \<and> (2::nat) \<le> 3 \<and> length ex_MA = 3 * 2 \<and> length ex_MB = 2 * 3 \<and>
   length ex_MC = 3 * 3 \<and> (3 * 2 :: nat) < 2 ^ 31 \<and> (3 * 3 :: nat) < 2 ^ 31 \<and>
   myDgemm (\<lambda>_. 7) 2 2 3 3 2 ex_MA ex_MB ex_MC MM_HDH = Inr [1, 2, 8, 3, 4, 18, 5, 6, 28] \<and>
   block_span 3 2 0 = 1 \<and> block_span 3 2 1 = 2"
proof -
  have h1: "(1::nat) \<le> 2" "(2::nat) \<le> 3" by simp_all
  have h2: "length ex_MA = 3 * 2" "length ex_MB = 2 * 3" "length ex_MC = 3 * 3"
    by (simp_all add: ex_MA_def ex_MB_def ex_MC_def)
  have h3: "(3 * 2 :: nat) < 2 ^ 31" "(2 * 3 :: nat) < 2 ^ 31" "(3 * 3 :: nat) < 2 ^ 31"
    by simp_all
  have s: "single_Dgemm 3 3 2 ex_MA ex_MB ex_MC = Inr [1, 2, 8, 3, 4, 18, 5, 6, 28]"
    by (simp add: single_Dgemm_def cublasDgemm_def ex_MA_def ex_MB_def ex_MC_def upt_rec)
  from myDgemm_blocked[OF h1 h1 h2 h3, of "\<lambda>_. 7" MM_HDH]
  show ?thesis using s h1 h2 h3 by (simp add: block_span_def)
qed

section \<open>Properties of the contraction planner\<close>

lemma scan_best_Some:
  "\<exists>b. scan_best key cs (Some b0) = Some b \<and> b \<in> insert b0 (set cs) \<and>
       (\<forall>c \<in> insert b0 (set cs). key b \<le> key c)"
proof (induction cs arbitrary: b0)
  case Nil
  then show ?case by simp
next
  case (Cons c cs)
  show ?case
  proof (cases "key c < key b0")
    case True
    from Cons.IH[of c] obtain b where
      b: "scan_best key cs (Some c) = Some b" "b \<in> insert c (set cs)"
      "\<forall>x \<in> insert c (set cs). key b \<le> key x"
      by blast
    then have "key b \<le> key b0" using True by force
    then show ?thesis using b True by auto
  next
    case False
    from Cons.IH[of b0] obtain b where
      b: "scan_best key cs (Some b0) = Some b" "b \<in> insert b0 (set cs)"
      "\<forall>x \<in> insert b0 (set cs). key b \<le> key x"
      by blast
    then have "key b \<le> key c" using False by force
    then show ?thesis using b False by auto
  qed
qed

lemma scan_best_None:
  "scan_best key cs None = None \<longleftrightarrow> cs = []"
proof (cases cs)
  case Nil
  then show ?thesis by simp
next
  case (Cons c cs')
  then show ?thesis using scan_best_Some[of key cs' c] by auto
qed

lemma scan_best_min:
  assumes "scan_best key cs None = Some b"
  shows "b \<in> set cs \<and> (\<forall>c \<in> set cs. key b \<le> key c)"
proof (cases cs)
  case Nil
  then show ?thesis using assms by simp
next
  case (Cons c cs')
  then show ?thesis using scan_best_Some[of key cs' c] assms by auto
qed

lemma set_candidates:
  "set (candidates roots) =
     {(i, j). i < j \<and> j < length roots \<and> shares_label (roots ! i) (roots ! j)}"
proof (rule set_eqI)
  fix x :: "nat \<times> nat"
  obtain a b where x: "x = (a, b)" by (cases x)
  have "(a, b) \<in> set (candidates roots) \<longleftrightarrow>
        (a < length roots \<and> Suc a \<le> b \<and> b < length roots \<and> shares_label (roots ! a) (roots ! b))"
    by (auto simp: candidates_def)
  also have "\<dots> \<longleftrightarrow> (a < b \<and> b < length roots \<and> shares_label (roots ! a) (roots ! b))"
    by auto
  finally show "x \<in> set (candidates roots) \<longleftrightarrow>
        x \<in> {(i, j). i < j \<and> j < length roots \<and> shares_label (roots ! i) (roots ! j)}"
    by (simp add: x)
qed

lemma greedy_pick_min:
  assumes "greedy_pick cal_elemNum roots = Some (i, j)"
  shows "i < j \<and> j < length roots \<and> shares_label (roots ! i) (roots ! j) \<and>
         (\<forall>i' j'. i' < j' \<and> j' < length roots \<and> shares_label (roots ! i') (roots ! j') \<longrightarrow>
            pair_key cal_elemNum roots (i, j) \<le> pair_key cal_elemNum roots (i', j'))"
proof -
  from scan_best_min[OF assms[unfolded greedy_pick_def]]
  have m: "(i, j) \<in> set (candidates roots)"
    "\<forall>c \<in> set (candidates roots). pair_key cal_elemNum roots (i, j) \<le> pair_key cal_elemNum roots c"
    by simp_all
  show ?thesis using m by (auto simp: set_candidates)
qed

lemma pair_key_le:
  "pair_key cal roots (i, j) \<le> pair_key cal roots (i', j') \<longleftrightarrow>
     metric cal (roots ! i) (roots ! j) < metric cal (roots ! i') (roots ! j') \<or>
     metric cal (roots ! i) (roots ! j) = metric cal (roots ! i') (roots ! j') \<and>
     (elemNum_of (roots ! i) + elemNum_of (roots ! j) < elemNum_of (roots ! i') + elemNum_of (roots ! j') \<or>
      elemNum_of (roots ! i) + elemNum_of (roots ! j) = elemNum_of (roots ! i') + elemNum_of (roots ! j') \<and>
      min (first_leaf (roots ! i)) (first_leaf (roots ! j)) \<le>
      min (first_leaf (roots ! i')) (first_leaf (roots ! j')))"
  by (auto simp: pair_key_def)

text \<open>
  Claim C5. At every greedy step of the tree construction (on any list of current
  roots): no pair is merged exactly when no two roots share a label; otherwise the two
  roots that are merged share a label and, among all pairs of roots that share a label,
  minimise the metric \<open>elemNum(merged) - max(elemNum(self), elemNum(other))\<close>, with
  ties broken first by the lower combined \<open>elemNum\<close> and then by the earlier leaf
  index; the two roots are removed and the merged root is added.
\<close>

theorem greedy_step_minimal:
  "(greedy_step cal roots = None \<longleftrightarrow>
      \<not> (\<exists>i j. i < j \<and> j < length roots \<and> shares_label (roots ! i) (roots ! j))) \<and>
   (\<forall>roots'. greedy_step cal roots = Some roots' \<longrightarrow>
      (\<exists>i j. i < j \<and> j < length roots \<and> shares_label (roots ! i) (roots ! j) \<and>
         roots' = map ((!) roots) (filter (\<lambda>k. k \<noteq> i \<and> k \<noteq> j) [0..<length roots]) @
                  [contract_node cal (roots ! i) (roots ! j)] \<and>
         (\<forall>i' j'. i' < j' \<and> j' < length roots \<and> shares_label (roots ! i') (roots ! j') \<longrightarrow>
            metric cal (roots ! i) (roots ! j) < metric cal (roots ! i') (roots ! j') \<or>
            metric cal (roots ! i) (roots ! j) = metric cal (roots ! i') (roots ! j') \<and>
            (elemNum_of (roots ! i) + elemNum_of (roots ! j)
               < elemNum_of (roots ! i') + elemNum_of (roots ! j') \<or>
             elemNum_of (roots ! i) + elemNum_of (roots ! j)
               = elemNum_of (roots ! i') + elemNum_of (roots ! j') \<and>
             min (first_leaf (roots ! i)) (first_leaf (roots ! j)) \<le>
             min (first_leaf (roots ! i')) (first_leaf (roots ! j'))))))"
proof (intro conjI allI impI)
  have "greedy_step cal roots = None \<longleftrightarrow> candidates roots = []"
    by (auto simp: greedy_step_def greedy_pick_def scan_best_None split: option.splits)
  also have "\<dots> \<longleftrightarrow> set (candidates roots) = {}" by simp
  also have "\<dots> \<longleftrightarrow> \<not> (\<exists>i j. i < j \<and> j < length roots \<and> shares_label (roots ! i) (roots ! j))"
    unfolding set_candidates by auto
  finally show "greedy_step cal roots = None \<longleftrightarrow>
      \<not> (\<exists>i j. i < j \<and> j < length roots \<and> shares_label (roots ! i) (roots ! j))" .
next
  fix roots' assume st: "greedy_step cal roots = Some roots'"
  then obtain i j where pk: "greedy_pick cal roots = Some (i, j)"
    and r': "roots' = map ((!) roots) (filter (\<lambda>k. k \<noteq> i \<and> k \<noteq> j) [0..<length roots]) @
                  [contract_node cal (roots ! i) (roots ! j)]"
    by (auto simp: greedy_step_def split: option.splits)
  from greedy_pick_min[OF pk] have
    c: "i < j" "j < length roots" "shares_label (roots ! i) (roots ! j)"
    and m: "\<And>i' j'. i' < j' \<Longrightarrow> j' < length roots \<Longrightarrow> shares_label (roots ! i') (roots ! j') \<Longrightarrow>
            pair_key cal roots (i, j) \<le> pair_key cal roots (i', j')"
    by blast+
  show "\<exists>i j. i < j \<and> j < length roots \<and> shares_label (roots ! i) (roots ! j) \<and>
         roots' = map ((!) roots) (filter (\<lambda>k. k \<noteq> i \<and> k \<noteq> j) [0..<length roots]) @
                  [contract_node cal (roots ! i) (roots ! j)] \<and>
         (\<forall>i' j'. i' < j' \<and> j' < length roots \<and> shares_label (roots ! i') (roots ! j') \<longrightarrow>
            metric cal (roots ! i) (roots ! j) < metric cal (roots ! i') (roots ! j') \<or>
            metric cal (roots ! i) (roots ! j) = metric cal (roots ! i') (roots ! j') \<and>
            (elemNum_of (roots ! i) + elemNum_of (roots ! j)
               < elemNum_of (roots ! i') + elemNum_of (roots ! j') \<or>
             elemNum_of (roots ! i) + elemNum_of (roots ! j)
               = elemNum_of (roots ! i') + elemNum_of (roots ! j') \<and>
             min (first_leaf (roots ! i)) (first_leaf (roots ! j)) \<le>
             min (first_leaf (roots ! i')) (first_leaf (roots ! j'))))"
    using c r' m[unfolded pair_key_le] by blast
qed

text \<open>
  The ring of three tensors: the pair (1, 2) has the metric -6, below -4 and 4 of the
  other two pairs, and is merged first.
\<close>

theorem greedy_step_minimal_witness:
  "greedy_step ex_cal ex_ring =
     Some [Leaf_t 0 [1, 2] [2, 3] 6,
           Inner_t (Leaf_t 1 [2, 3] [3, 4] 12) (Leaf_t 2 [3, 1] [4, 2] 8) [2, 1] [3, 2] 6 (- 6)] \<and>
   metric ex_cal (ex_ring ! 1) (ex_ring ! 2) < metric ex_cal (ex_ring ! 0) (ex_ring ! 1) \<and>
   metric ex_cal (ex_ring ! 1) (ex_ring ! 2) < metric ex_cal (ex_ring ! 0) (ex_ring ! 2)"
proof -
  have st: "greedy_step ex_cal ex_ring =
     Some [Leaf_t 0 [1, 2] [2, 3] 6,
           Inner_t (Leaf_t 1 [2, 3] [3, 4] 12) (Leaf_t 2 [3, 1] [4, 2] 8) [2, 1] [3, 2] 6 (- 6)]"
    by (simp add: greedy_step_def greedy_pick_def candidates_def pair_key_def metric_def
        remaining_def contract_node_def shares_label_def ex_ring_def ex_cal_def upt_rec)
  have m: "metric ex_cal (ex_ring ! 1) (ex_ring ! 2) = - 6"
    "metric ex_cal (ex_ring ! 0) (ex_ring ! 1) = - 4"
    "metric ex_cal (ex_ring ! 0) (ex_ring ! 2) = 4"
    by (simp_all add: metric_def remaining_def ex_ring_def ex_cal_def)
  from greedy_step_minimal[of ex_cal ex_ring] st
  have "\<exists>i j. i < j \<and> j < length ex_ring \<and> shares_label (ex_ring ! i) (ex_ring ! j)"
    by blast
  then show ?thesis using st m by simp
qed

section \<open>Launching twice\<close>

lemma launchNPT_again:
  assumes c: "\<And>m m'. net_construct m = Inr m' \<Longrightarrow> net_load m'"
  shows "launchNPT net_construct mk_ut cplx
           (fst (launchNPT net_construct mk_ut cplx self to_ut name)) to_ut name =
         launchNPT net_construct mk_ut cplx self to_ut name"
proof (cases "net_load self")
  case True
  then show ?thesis by (simp add: launchNPT_def)
next
  case False
  show ?thesis
  proof (cases "net_construct self")
    case (Inl e)
    then show ?thesis using False by (simp add: launchNPT_def)
  next
    case (Inr m')
    then have "net_load m'" by (rule c)
    then show ?thesis using False Inr by (simp add: launchNPT_def)
  qed
qed

lemma apply_swaps_idem:
  assumes "length (swapflags n) = length (tensors n)"
  shows "apply_swaps addGate (apply_swaps addGate n) = apply_swaps addGate n"
proof -
  define m where "m = apply_swaps addGate n"
  have t: "map (\<lambda>k. if swapflags m ! k then tensors m ! k
                       else addGate (swaps_arr m ! k) (tensors m ! k))
             [0..<length (tensors m)] = tensors m"
    by (rule nth_equalityI) (use assms in \<open>auto simp: m_def apply_swaps_def\<close>)
  have f: "map (\<lambda>k. True) [0..<length (swapflags m)] = swapflags m"
    by (simp add: m_def apply_swaps_def)
  have "apply_swaps addGate m = m"
    unfolding apply_swaps_def[of addGate m] t f by simp
  then show ?thesis by (simp add: m_def)
qed

lemma apply_swaps_fields:
  "load (apply_swaps addGate n) = load n"
  "root (apply_swaps addGate n) = root n"
  "swaps_arr (apply_swaps addGate n) = swaps_arr n"
  "label_TOUT (apply_swaps addGate n) = label_TOUT n"
  "Rnum_TOUT (apply_swaps addGate n) = Rnum_TOUT n"
  "length (swapflags (apply_swaps addGate n)) = length (swapflags n)"
  "length (tensors (apply_swaps addGate n)) = length (tensors n)"
  by (simp_all add: apply_swaps_def)

lemma launch_t_again:
  assumes c: "\<And>m. load (construct_t m)"
    and l: "length (swapflags (if load n then n else construct_t n)) =
            length (tensors (if load n then n else construct_t n))"
  shows "launch_t construct_t addGate contract_t permute_t
           (fst (launch_t construct_t addGate contract_t permute_t n)) =
         launch_t construct_t addGate contract_t permute_t n"
proof -
  define n1 where "n1 = (if load n then n else construct_t n)"
  define n2 where "n2 = apply_swaps addGate n1"
  define body where "body = (\<lambda>m :: ('a, 'b) Network_t.
          case root m of
            None \<Rightarrow> Inl TensorError
          | Some rt \<Rightarrow>
              (case merge_t contract_t (tensors m) rt of
                 Inl err \<Rightarrow> Inl err
               | Inr t \<Rightarrow>
                   if length (label_TOUT m) > 0
                   then permute_t (label_TOUT m) (Rnum_TOUT m) t else Inr t))"
  have l1: "load n1" using c by (simp add: n1_def)
  have A: "launch_t construct_t addGate contract_t permute_t n = (n2, body n2)"
    by (simp add: launch_t_def Let_def n1_def n2_def body_def)
  have l2: "load n2" using l1 by (simp add: n2_def apply_swaps_fields)
  have idem: "apply_swaps addGate n2 = n2"
    unfolding n2_def using l by (intro apply_swaps_idem) (simp add: n1_def)
  have B: "launch_t construct_t addGate contract_t permute_t n2 =
           (apply_swaps addGate n2, body (apply_swaps addGate n2))"
    using l2 by (simp add: launch_t_def Let_def body_def)
  show ?thesis unfolding A fst_conv B idem ..
qed

text \<open>
  Claim C7. Launching a network a second time, from the state the first launch left
  (the same bound tensors), returns the same output and leaves the network as the first
  launch left it. For \<open>launchNPT\<close> of the shim: it applies no swap gate and changes no
  leaf, and \<open>construct()\<close> runs at most once, since it leaves the network loaded. For
  \<open>Network_t::launch\<close> as the spec describes it: the swap list of each leaf is the one
  cached in \<open>swaps_arr\<close>, which a launch does not change, and the flags keep the second
  launch from applying it again.
\<close>

theorem launch_twice:
  assumes c: "\<And>m m'. net_construct m = Inr m' \<Longrightarrow> net_load m'"
    and ct: "\<And>m. load (construct_t m)"
    and l: "length (swapflags (if load n then n else construct_t n)) =
            length (tensors (if load n then n else construct_t n))"
  shows "launchNPT net_construct mk_ut cplx
           (fst (launchNPT net_construct mk_ut cplx self to_ut name)) to_ut name =
         launchNPT net_construct mk_ut cplx self to_ut name \<and>
         launch_t construct_t addGate contract_t permute_t
           (fst (launch_t construct_t addGate contract_t permute_t n)) =
         launch_t construct_t addGate contract_t permute_t n \<and>
         swaps_arr (fst (launch_t construct_t addGate contract_t permute_t n)) =
           swaps_arr (if load n then n else construct_t n)"
proof -
  have "swaps_arr (fst (launch_t construct_t addGate contract_t permute_t n)) =
           swaps_arr (if load n then n else construct_t n)"
    by (simp add: launch_t_def Let_def apply_swaps_fields)
  then show ?thesis
    using launchNPT_again[of net_construct mk_ut cplx self to_ut name, OF c]
      launch_t_again[of construct_t n addGate contract_t permute_t, OF ct l]
    by simp
qed

text \<open>
  Two launches of a two-tensor network through the shim, and of a two-leaf network with
  one swap: the swap is applied once, and both launches return the same result.
\<close>

theorem launch_twice_witness:
  "launchNPT ex_construct ex_mk_ut False
     (fst (launchNPT ex_construct ex_mk_ut False ex_pynet True ''out'')) True ''out'' =
   launchNPT ex_construct ex_mk_ut False ex_pynet True ''out'' \<and>
   snd (launchNPT ex_construct ex_mk_ut False ex_pynet True ''out'') =
     Inr (AsUniTensor [1, 2, 3, 4] ''out'') \<and>
   launch_t (\<lambda>m. m\<lparr>load := True\<rparr>) ex_addGate ex_contract ex_permute
     (fst (launch_t (\<lambda>m. m\<lparr>load := True\<rparr>) ex_addGate ex_contract ex_permute ex_net)) =
   launch_t (\<lambda>m. m\<lparr>load := True\<rparr>) ex_addGate ex_contract ex_permute ex_net \<and>
   snd (launch_t (\<lambda>m. m\<lparr>load := True\<rparr>) ex_addGate ex_contract ex_permute ex_net) =
     Inr [- 3, 8]"
proof -
  have h1: "\<And>m m'. ex_construct m = Inr m' \<Longrightarrow> net_load m'"
    by (auto simp: ex_construct_def)
  have h2: "\<And>m :: (int list, nat) Network_t. load ((\<lambda>m. m\<lparr>load := True\<rparr>) m)"
    by simp
  have h3: "length (swapflags (if load ex_net then ex_net else (\<lambda>m. m\<lparr>load := True\<rparr>) ex_net)) =
            length (tensors (if load ex_net then ex_net else (\<lambda>m. m\<lparr>load := True\<rparr>) ex_net))"
    by (simp add: ex_net_def)
  have o1: "snd (launchNPT ex_construct ex_mk_ut False ex_pynet True ''out'') =
     Inr (AsUniTensor [1, 2, 3, 4] ''out'')"
    by (simp add: launchNPT_def ex_construct_def ex_pynet_def ex_mk_ut_def isLeaf_def
        NPTensor_of_node_def ex_U_def ex_U2_def exportElem_def np_reshape_def mapLabelBond_def
        contractNPT_def lab_common_of_def dict_get_def np_tensordot_def np_transpose_def
        np_dot_def ravel_def item_def offset_of_def setLabel_def toUniTensor_def
        toUniTensor_bds_def Let_def upt_rec AList.update.simps)
  have o2: "snd (launch_t (\<lambda>m. m\<lparr>load := True\<rparr>) ex_addGate ex_contract ex_permute ex_net) =
     Inr [- 3, 8]"
    by (simp add: launch_t_def apply_swaps_def ex_net_def ex_addGate_def ex_contract_def
        ex_permute_def Let_def upt_rec)
  from launch_twice[of ex_construct "\<lambda>m. m\<lparr>load := True\<rparr>" ex_net ex_mk_ut False ex_pynet True
      "''out''" ex_addGate ex_contract ex_permute, OF h1 h2 h3]
  show ?thesis using o1 o2 by simp
qed

section \<open>The block layout of a symmetric tensor\<close>

text \<open>
  The offset of a multi-index among those of its charge and the lookup by offset are
  inverse to each other.
\<close>

lemma nth_offset_in:
  "x \<in> set xs \<Longrightarrow> P x \<Longrightarrow>
   offset_in P xs x < length (filter P xs) \<and> filter P xs ! offset_in P xs x = x"
proof (induction xs)
  case Nil
  then show ?case by simp
next
  case (Cons y ys)
  show ?case
  proof (cases "y = x")
    case True
    then show ?thesis using Cons.prems by (simp add: offset_in_def)
  next
    case False
    then have "x \<in> set ys" using Cons.prems by simp
    from Cons.IH[OF this Cons.prems(2)] False show ?thesis
      by (simp add: offset_in_def)
  qed
qed



lemma block_charges_iff:
  "q \<in> set (block_charges bonds R) \<longleftrightarrow>
   block_row_indices bonds R q \<noteq> [] \<and> block_col_indices bonds R q \<noteq> []"
  by (auto simp: block_charges_def block_row_indices_def filter_empty_conv)



lemma located_position:
  fixes bonds :: "'q::{comm_monoid_add,linorder} Bond list"
  assumes ri: "ridx \<in> set (row_indices bonds R)" and ci: "cidx \<in> set (col_indices bonds R)"
    and e: "charge_sum (take R bonds) ridx = charge_sum (drop R bonds) cidx"
  shows "\<exists>q r c. locate bonds R ridx cidx = Some (q, r, c) \<and> q \<in> set (block_charges bonds R) \<and>
                 r < length (block_row_indices bonds R q) \<and>
                 c < length (block_col_indices bonds R q) \<and>
                 at_block bonds R q r c = (ridx, cidx)"
proof -
  define q where "q = charge_sum (take R bonds) ridx"
  define r where "r = offset_in (\<lambda>idx. charge_sum (take R bonds) idx = q) (row_indices bonds R) ridx"
  define c where "c = offset_in (\<lambda>idx. charge_sum (drop R bonds) idx = q) (col_indices bonds R) cidx"
  have l: "locate bonds R ridx cidx = Some (q, r, c)"
    using e by (simp add: locate_def Let_def q_def r_def c_def)
  have pr: "r < length (block_row_indices bonds R q) \<and> block_row_indices bonds R q ! r = ridx"
    unfolding r_def block_row_indices_def by (rule nth_offset_in[OF ri]) (simp add: q_def)
  have pc: "c < length (block_col_indices bonds R q) \<and> block_col_indices bonds R q ! c = cidx"
    unfolding c_def block_col_indices_def by (rule nth_offset_in[OF ci]) (simp add: q_def e)
  have "q \<in> set (block_charges bonds R)"
    using pr pc by (auto simp: block_charges_iff)
  then show ?thesis using l pr pc by (auto simp: at_block_def)
qed
























end
